theory Spec2Isabelle
  imports Main
begin

section \<open>Strings, bytes and the library functions the request parser calls\<close>

text \<open>
  A Go string is a sequence of bytes; it is modelled as a \<open>string\<close> (a list of 8-bit
  characters).  The character classes of Go's \<open>regexp\<close> package are ASCII only:
  \<open>\d\<close> is \<open>[0-9]\<close> and \<open>\w\<close> is \<open>[0-9A-Za-z_]\<close>.
\<close>

definition isDigit :: "char \<Rightarrow> bool" where
  "isDigit c = (c \<in> set ''0123456789'')"

definition isWord :: "char \<Rightarrow> bool" where
  "isWord c =
     (c \<in> set ''0123456789ABCDEFGHIJKLMNOPQRSTUVWXYZ_abcdefghijklmnopqrstuvwxyz'')"

text \<open>\<open>strings.HasPrefix\<close>, and the rest of the string behind a literal prefix.\<close>

fun stripPrefix :: "string \<Rightarrow> string \<Rightarrow> string option" where
  "stripPrefix [] s = Some s"
| "stripPrefix (p # ps) [] = None"
| "stripPrefix (p # ps) (c # cs) = (if p = c then stripPrefix ps cs else None)"

definition hasPrefix :: "string \<Rightarrow> string \<Rightarrow> bool" where
  "hasPrefix s p = (stripPrefix p s \<noteq> None)"

text \<open>\<open>strings.Contains(s, substr)\<close>: \<open>substr\<close> starts at some position of \<open>s\<close>.\<close>

fun contains :: "string \<Rightarrow> string \<Rightarrow> bool" where
  "contains [] sub = (sub = [])"
| "contains (c # cs) sub = (hasPrefix (c # cs) sub \<or> contains cs sub)"

text \<open>
  \<open>strings.SplitN(s, sep, n)\<close> and \<open>strings.Split(s, sep)\<close> for a separator of one byte,
  after Go's \<open>genSplit\<close>: \<open>n = 0\<close> gives no part, and otherwise the string is cut at the
  first \<open>n - 1\<close> separators, the last part being the rest, uncut.  \<open>Split\<close> is
  \<open>SplitN\<close> with \<open>n\<close> one more than the number of separators.
\<close>

fun splitN :: "char \<Rightarrow> nat \<Rightarrow> string \<Rightarrow> string list" where
  "splitN sep 0 s = []"
| "splitN sep (Suc 0) s = [s]"
| "splitN sep (Suc (Suc n)) s =
     (if sep \<in> set s
      then takeWhile (\<lambda>c. c \<noteq> sep) s # splitN sep (Suc n) (tl (dropWhile (\<lambda>c. c \<noteq> sep) s))
      else [s])"

definition split :: "char \<Rightarrow> string \<Rightarrow> string list" where
  "split sep s = splitN sep (Suc (count_list s sep)) s"

text \<open>
  \<open>strings.ToUpper\<close>.  On ASCII bytes it maps \<open>a..z\<close> to \<open>A..Z\<close>, taking the distance
  between \<open>a\<close> and \<open>A\<close> off the byte.  Go upper-cases by
  Unicode code point, and exactly two code points outside ASCII have an ASCII upper case:
  U+017F (long s, the bytes C5 BF) becomes \<open>S\<close> and U+0131 (dotless i, the bytes C4 B1)
  becomes \<open>I\<close>.  Every other code point outside ASCII, and every byte that is not valid
  UTF-8, yields bytes outside ASCII again; the model copies such bytes, which cannot be
  told apart from Go's result by a comparison with an ASCII word such as the keys of
  \<open>allowedHTTPMethods\<close>.
\<close>

definition upperChar :: "char \<Rightarrow> char" where
  "upperChar c =
     (if (of_char CHR ''a'' :: nat) \<le> of_char c \<and> (of_char c :: nat) \<le> of_char CHR ''z''
      then char_of ((of_char c :: nat) - (of_char CHR ''a'' - of_char CHR ''A''))
      else c)"

fun toUpper :: "string \<Rightarrow> string" where
  "toUpper [] = []"
| "toUpper [c] = [upperChar c]"
| "toUpper (c # d # cs) =
     (if c = CHR 0xC5 \<and> d = CHR 0xBF then CHR ''S'' # toUpper cs
      else if c = CHR 0xC4 \<and> d = CHR 0xB1 then CHR ''I'' # toUpper cs
      else upperChar c # toUpper (d # cs))"

section \<open>Outcomes: values, log lines and panics\<close>

text \<open>
  A call either returns a value, having written some lines with \<open>log.Printf\<close>, or it
  panics.  \<open>bind\<close> runs one call after another: a panic ends the run, and the log lines
  add up in order.
\<close>

datatype 'a res = Panic string | Done 'a "string list"

fun bind :: "'a res \<Rightarrow> ('a \<Rightarrow> 'b res) \<Rightarrow> 'b res" where
  "bind (Panic p) f = Panic p"
| "bind (Done a l) f = (case f a of Panic p \<Rightarrow> Panic p | Done b l' \<Rightarrow> Done b (l @ l'))"


section \<open>Numbers as text\<close>

text \<open>
  \<open>strconv.Itoa\<close> and \<open>strconv.FormatInt(_, 10)\<close> write an integer in decimal, with a
  leading \<open>-\<close> when it is negative.
\<close>

definition digitChar :: "nat \<Rightarrow> char" where
  "digitChar n = ''0123456789'' ! (n mod 10)"

fun dec :: "nat \<Rightarrow> string" where
  "dec n = (if n < 10 then [digitChar n] else dec (n div 10) @ [digitChar (n mod 10)])"

declare dec.simps [simp del]

definition itoa :: "int \<Rightarrow> string" where
  "itoa x = (if x < 0 then CHR ''-'' # dec (nat (- x)) else dec (nat x))"

text \<open>
  \<open>strconv.Atoi\<close> on a platform whose \<open>int\<close> has 64 bits, after \<open>ParseInt\<close> and
  \<open>ParseUint\<close>: an optional sign, then decimal digits, read from the left.  A byte that
  is not a digit is a syntax error, met before or after the digits read so far overflow
  64 bits, whichever comes first.  \<open>Atoi\<close> returns a value and an error; on a syntax
  error the value is 0, and on a range error it is the nearest \<open>int\<close>.  Every caller in
  this repository drops the error.
\<close>

datatype numres = Num nat | SyntaxError | RangeError

definition digitVal :: "char \<Rightarrow> nat" where
  "digitVal c = of_char c - 48"

definition maxUint64 :: nat where
  "maxUint64 = 18446744073709551615"

definition maxInt64 :: int where
  "maxInt64 = 9223372036854775807"

fun parseUintLoop :: "nat \<Rightarrow> string \<Rightarrow> numres" where
  "parseUintLoop n [] = Num n"
| "parseUintLoop n (c # cs) =
     (if \<not> isDigit c then SyntaxError
      else if n \<ge> maxUint64 div 10 + 1 then RangeError
      else if n * 10 + digitVal c > maxUint64 then RangeError
      else parseUintLoop (n * 10 + digitVal c) cs)"

definition parseUint :: "string \<Rightarrow> numres" where
  "parseUint s = (if s = [] then SyntaxError else parseUintLoop 0 s)"

definition Atoi :: "string \<Rightarrow> int \<times> bool" where
  "Atoi s =
     (let neg = hasPrefix s ''-'';
          t = (if hasPrefix s ''+'' \<or> hasPrefix s ''-'' then tl s else s)
      in case parseUint t of
           SyntaxError \<Rightarrow> (0, False)
         | RangeError \<Rightarrow> (if neg then (- maxInt64 - 1, False) else (maxInt64, False))
         | Num un \<Rightarrow>
             if \<not> neg \<and> int un > maxInt64 then (maxInt64, False)
             else if neg \<and> int un > maxInt64 + 1 then (- maxInt64 - 1, False)
             else (if neg then - int un else int un, True))"

text \<open>Arithmetic on \<open>int\<close> wraps around silently in Go.\<close>

definition wrap64 :: "int \<Rightarrow> int" where
  "wrap64 x = (x + 2 ^ 63) mod 2 ^ 64 - 2 ^ 63"

section \<open>The calendar\<close>

text \<open>
  A civil date is a year, a month (1 to 12) and a day of the month, in the proleptic
  Gregorian calendar of Go's \<open>time\<close> package.  \<open>nextDay\<close> is the day after a date and
  \<open>prevDay\<close> the day before; \<open>shiftDays n\<close> goes \<open>n\<close> days forward, and back when \<open>n\<close> is
  negative.
\<close>

type_synonym date = "int \<times> int \<times> int"

definition isLeap :: "int \<Rightarrow> bool" where
  "isLeap y = (y mod 4 = 0 \<and> (y mod 100 \<noteq> 0 \<or> y mod 400 = 0))"

definition daysIn :: "int \<Rightarrow> int \<Rightarrow> int" where
  "daysIn y m =
     (if m = 2 then (if isLeap y then 29 else 28)
      else if m = 4 \<or> m = 6 \<or> m = 9 \<or> m = 11 then 30
      else 31)"

definition validDate :: "date \<Rightarrow> bool" where
  "validDate dt = (case dt of (y, m, d) \<Rightarrow> 1 \<le> m \<and> m \<le> 12 \<and> 1 \<le> d \<and> d \<le> daysIn y m)"

fun nextDay :: "date \<Rightarrow> date" where
  "nextDay (y, m, d) =
     (if d < daysIn y m then (y, m, d + 1)
      else if m < 12 then (y, m + 1, 1)
      else (y + 1, 1, 1))"

fun prevDay :: "date \<Rightarrow> date" where
  "prevDay (y, m, d) =
     (if 1 < d then (y, m, d - 1)
      else if 1 < m then (y, m - 1, daysIn y (m - 1))
      else (y - 1, 12, 31))"

definition shiftDays :: "int \<Rightarrow> date \<Rightarrow> date" where
  "shiftDays n dt = (if 0 \<le> n then (nextDay ^^ nat n) dt else (prevDay ^^ nat (- n)) dt)"

text \<open>
  \<open>Time.Format("2006-01-02")\<close>: the year on at least four digits, the month and the day
  on at least two, padded with zeros, a negative number with its sign in front.
\<close>

definition zeroPad :: "nat \<Rightarrow> nat \<Rightarrow> string" where
  "zeroPad w n = replicate (w - length (dec n)) CHR ''0'' @ dec n"

definition appendInt :: "int \<Rightarrow> nat \<Rightarrow> string" where
  "appendInt x w = (if x < 0 then CHR ''-'' # zeroPad w (nat (- x)) else zeroPad w (nat x))"

definition formatDate :: "date \<Rightarrow> string" where
  "formatDate dt =
     (case dt of (y, m, d) \<Rightarrow> appendInt y 4 @ ''-'' @ appendInt m 2 @ ''-'' @ appendInt d 2)"

section \<open>Instants, zones and \<open>Time.AddDate\<close>\<close>

text \<open>
  Go truncates the quotient of integers towards zero.
\<close>

definition quot :: "int \<Rightarrow> int \<Rightarrow> int" where
  "quot a b = sgn a * sgn b * (\<bar>a\<bar> div \<bar>b\<bar>)"

text \<open>
  A \<open>Location\<close> is a time zone.  All that \<open>dateElements\<close> uses of it is its \<open>lookup\<close>,
  which for an instant in Unix seconds gives the offset from UTC in force at that instant,
  in seconds east of UTC, and the instants at which this offset starts and ends to be in
  force; a zone is therefore modelled as this function.  \<open>alpha\<close> and \<open>omega\<close> are the
  bounds that \<open>lookup\<close> returns where the zone has no earlier or no later change.  In
  \<open>UTC\<close> the offset is 0 at all times.  A \<open>Time\<close> is an instant in Unix seconds together
  with the zone in which it is shown; the nanoseconds within the second play no part in a
  date and are left out.
\<close>

type_synonym Location = "int \<Rightarrow> int \<times> int \<times> int"

definition alpha :: int where
  "alpha = - (2 ^ 63)"

definition omega :: int where
  "omega = 2 ^ 63 - 1"

definition UTC :: Location where
  "UTC sec = (0, alpha, omega)"

type_synonym Time = "int \<times> Location"

text \<open>
  \<open>absDate\<close> is the civil date that lies the given number of days after 1 January 1970
  (before it, when the number is negative); it undoes the count of days that \<open>Date\<close>
  makes below (\<open>absDate_daysOf\<close>, \<open>daysOf_absDate\<close>).  \<open>Time.Date\<close> and \<open>Time.Clock\<close>
  read the date and the time of day off the local seconds of a \<open>Time\<close>, which are its
  Unix seconds plus the offset that its zone has at that instant.
\<close>

definition absDate :: "int \<Rightarrow> date" where
  "absDate days = shiftDays days (1970, 1, 1)"

fun localSec :: "Time \<Rightarrow> int" where
  "localSec (sec, loc) = sec + fst (loc sec)"

definition TimeDate :: "Time \<Rightarrow> date" where
  "TimeDate t = absDate (localSec t div 86400)"

definition Clock :: "Time \<Rightarrow> int \<times> int \<times> int" where
  "Clock t =
     (let sec = localSec t mod 86400;
          hour = sec div 3600;
          sec = sec - hour * 3600;
          mi = sec div 60;
          sec = sec - mi * 60
      in (hour, mi, sec))"

text \<open>
  \<open>time.Date(year, month, day, hour, min, sec, nsec, loc)\<close>.  \<open>norm\<close> brings \<open>lo\<close> into
  the range from 0 to \<open>base - 1\<close> and carries into \<open>hi\<close>.  \<open>daysSinceEpoch\<close> counts the days
  from 1 January 1970 to 1 January of the year; Go counts them from the first day of a year
  far in the past, in cycles of 400, 100 and 4 years, and moves the origin afterwards.
  \<open>daysBefore\<close> is Go's table of the days of a common year that lie before each month,
  and \<open>yearDay\<close> counts the days of the year before the given day; \<open>Date\<close> reads the
  table at a month that \<open>norm\<close> has brought into 1 to 12.  \<open>Date\<close> then reads the wall
  clock it was given as if it were UTC, looks up the offset of the zone at that instant,
  looks it up once more at the corrected instant if that one falls outside the period in
  which the first offset is in force, and subtracts the offset.  Integers are unbounded in
  the model; in Go these computations stay within 64 bits as long as the year is within
  two hundred billion years of the present.
\<close>

definition norm :: "int \<Rightarrow> int \<Rightarrow> int \<Rightarrow> int \<times> int" where
  "norm hi lo base =
     (let (hi, lo) = (if lo < 0 then (let n = quot (- lo - 1) base + 1 in (hi - n, lo + n * base))
                      else (hi, lo))
      in if base \<le> lo then (let n = quot lo base in (hi + n, lo - n * base)) else (hi, lo))"

definition daysSinceEpoch :: "int \<Rightarrow> int" where
  "daysSinceEpoch year =
     (let y = year - 1 in 365 * (year - 1970) + (y div 4 - y div 100 + y div 400) - 477)"

definition daysBefore :: "int list" where
  "daysBefore = [0, 31, 59, 90, 120, 151, 181, 212, 243, 273, 304, 334, 365]"

definition yearDay :: "int \<Rightarrow> int \<Rightarrow> int \<Rightarrow> int" where
  "yearDay year month day =
     daysBefore ! nat (month - 1) + (if isLeap year \<and> 3 \<le> month then 1 else 0) + (day - 1)"

definition Date :: "int \<Rightarrow> int \<Rightarrow> int \<Rightarrow> int \<Rightarrow> int \<Rightarrow> int \<Rightarrow> Location \<Rightarrow> Time" where
  "Date year month day hour mi sec loc =
     (let (year, m) = norm year (month - 1) 12;
          month = m + 1;
          (mi, sec) = norm mi sec 60;
          (hour, mi) = norm hour mi 60;
          (day, hour) = norm day hour 24;
          d = daysSinceEpoch year + yearDay year month day;
          unix = d * 86400 + (hour * 3600 + mi * 60 + sec);
          (offset, start, end) = loc unix;
          offset = (if offset \<noteq> 0 \<and> (unix - offset < start \<or> end \<le> unix - offset)
                    then fst (loc (unix - offset)) else offset)
      in (unix - offset, loc))"

text \<open>
  \<open>Time.AddDate(years, months, days)\<close> adds the offsets to the date of the \<open>Time\<close>, keeps
  its time of day and its zone, and has \<open>Date\<close> make a \<open>Time\<close> of the result.
  \<open>Time.Format("2006-01-02")\<close> writes the date of a \<open>Time\<close>.
\<close>

definition AddDate :: "int \<Rightarrow> int \<Rightarrow> int \<Rightarrow> Time \<Rightarrow> Time" where
  "AddDate years months days t =
     (case TimeDate t of (year, month, day) \<Rightarrow>
      case Clock t of (hour, mi, sec) \<Rightarrow>
        Date (year + years) (month + months) (day + days) hour mi sec (snd t))"

definition Format :: "Time \<Rightarrow> string" where
  "Format t = formatDate (TimeDate t)"

section \<open>What a placeholder callback observes of the outside world\<close>

text \<open>
  Each callback of the interpolator reads the clock or draws one random number.  An
  \<open>obs\<close> holds what one callback can observe: the Unix time in nanoseconds at which
  \<open>time.Now()\<close> is called, the raw random number behind \<open>rand.Intn\<close>, and the zone
  \<open>time.Local\<close> of the process.  \<open>Now\<close> is the \<open>Time\<close> that \<open>time.Now()\<close> returns: that
  instant in the local zone.  A \<open>world\<close> gives the observation of the k-th callback of a
  run.  \<open>rand.Intn(n)\<close> panics unless \<open>n\<close> is positive, and otherwise returns a number
  from 0 to \<open>n - 1\<close>.
\<close>

record obs =
  unixNano :: int
  rnd :: nat
  Local :: Location

definition Now :: "obs \<Rightarrow> Time" where
  "Now ob = (unixNano ob div 1000000000, Local ob)"

type_synonym world = "nat \<Rightarrow> obs"

definition Intn :: "obs \<Rightarrow> int \<Rightarrow> int res" where
  "Intn ob n =
     (if n \<le> 0 then Panic ''invalid argument to Intn''
      else Done (int (rnd ob) mod n) [])"


section \<open>The four patterns\<close>

text \<open>
  Go's \<open>regexp\<close> finds the leftmost match and, among the matches that start there, the
  one a backtracking matcher with greedy repetitions meets first.  Each pattern of the
  source is written out as a matcher that reads a match at the start of its argument.
  In all four patterns what follows a repetition never starts with a byte the repetition
  can read, except for \<open>\w+\<close> in the first one, so that reading each repetition as far
  as it goes is the only way to match.

  \<open>templatePlaceholderRegex\<close> is \<^verbatim>\<open>{\$(\w+(?:[\|(?:[\w+-=,]+)]*)}\<close>.  The bracket
  expression that opens after \<^verbatim>\<open>(?:\<close> runs to the first \<^verbatim>\<open>]\<close>: it is the class
  of the bytes \<^verbatim>\<open>|\<close>, \<^verbatim>\<open>(\<close>, \<^verbatim>\<open>?\<close>, \<^verbatim>\<open>:\<close>, \<^verbatim>\<open>[\<close>, the word bytes, the
  range from \<^verbatim>\<open>+\<close> to \<^verbatim>\<open>=\<close> (the bytes 43 to 61) and \<^verbatim>\<open>,\<close>.  The \<^verbatim>\<open>+\<close>
  behind it repeats the class, the \<^verbatim>\<open>)\<close> closes the group, and \<^verbatim>\<open>]*\<close> is a run
  of closing brackets.  So a match is \<^verbatim>\<open>{$\<close>, one or more word bytes, one or more
  class bytes, any number of \<^verbatim>\<open>]\<close>, and \<^verbatim>\<open>}\<close>.  Word bytes are class bytes, and
  neither \<^verbatim>\<open>]\<close> nor \<^verbatim>\<open>}\<close> is one: the word and class bytes together are the
  longest run of class bytes behind \<^verbatim>\<open>{$\<close>, which must start with a word byte and
  have two bytes or more.
\<close>

definition isClassChar :: "char \<Rightarrow> bool" where
  "isClassChar c = (isWord c \<or> c \<in> set ''|(?:[+,-./0123456789:;<='')"

definition matchPlaceholder :: "string \<Rightarrow> (string \<times> string) option" where
  "matchPlaceholder s =
     (case stripPrefix ''{$'' s of
        None \<Rightarrow> None
      | Some t \<Rightarrow>
          (let run = takeWhile isClassChar t;
               brackets = takeWhile (\<lambda>c. c = CHR '']'') (dropWhile isClassChar t);
               r = dropWhile (\<lambda>c. c = CHR '']'') (dropWhile isClassChar t)
           in if 2 \<le> length run \<and> isWord (hd run) \<and> hasPrefix r ''}''
              then Some (''{$'' @ run @ brackets @ ''}'', tl r)
              else None))"

text \<open>
  \<open>FindStringSubmatch\<close> searches for the leftmost position where the pattern matches.
\<close>

fun findFirst :: "(string \<Rightarrow> 'a option) \<Rightarrow> string \<Rightarrow> 'a option" where
  "findFirst m [] = m []"
| "findFirst m (c # cs) = (case m (c # cs) of Some r \<Rightarrow> Some r | None \<Rightarrow> findFirst m cs)"

text \<open>
  \<open>templateRangeRegex\<close> is \<^verbatim>\<open>{\$range\|min=(?P<Min>\d+),max=(?P<Max>\d+)}\<close>; the
  matcher returns the two groups.
\<close>

definition matchRange :: "string \<Rightarrow> (string \<times> string) option" where
  "matchRange s =
     (case stripPrefix ''{$range|min='' s of
        None \<Rightarrow> None
      | Some t \<Rightarrow>
          (case stripPrefix '',max='' (dropWhile isDigit t) of
             None \<Rightarrow> None
           | Some u \<Rightarrow>
               if takeWhile isDigit t \<noteq> [] \<and> takeWhile isDigit u \<noteq> []
                  \<and> hasPrefix (dropWhile isDigit u) ''}''
               then Some (takeWhile isDigit t, takeWhile isDigit u)
               else None))"

text \<open>
  \<open>templateElementsRegex\<close> is \<^verbatim>\<open>{\$random\|(?P<Elements>[,\w-]+)}\<close>; the matcher
  returns the group.
\<close>

definition isElementChar :: "char \<Rightarrow> bool" where
  "isElementChar c = (c = CHR '','' \<or> isWord c \<or> c = CHR ''-'')"

definition matchElements :: "string \<Rightarrow> string option" where
  "matchElements s =
     (case stripPrefix ''{$random|'' s of
        None \<Rightarrow> None
      | Some t \<Rightarrow>
          if takeWhile isElementChar t \<noteq> [] \<and> hasPrefix (dropWhile isElementChar t) ''}''
          then Some (takeWhile isElementChar t)
          else None)"

text \<open>
  \<open>templateDatesRegex\<close> is
  \<^verbatim>\<open>{\$currentDate(?:\|(?:days(?P<Days>[+-]\d+))*(?:[,]*months(?P<Months>[+-]\d+))*(?:[,]*years(?P<Years>[+-]\d+))*)*}\<close>.
  A group that is repeated keeps what its last round read, and a group that never took
  part is the empty string in the result of \<open>FindStringSubmatch\<close>.  \<open>star\<close> repeats one
  round of a group for as long as the round matches and reads something.
\<close>

definition signedDigits :: "string \<Rightarrow> (string \<times> string) option" where
  "signedDigits s =
     (case s of
        [] \<Rightarrow> None
      | c # t \<Rightarrow>
          if (c = CHR ''+'' \<or> c = CHR ''-'') \<and> takeWhile isDigit t \<noteq> []
          then Some (c # takeWhile isDigit t, dropWhile isDigit t)
          else None)"

definition offsetRound :: "string \<Rightarrow> string \<Rightarrow> (string \<times> string) option" where
  "offsetRound name s =
     (case stripPrefix name s of None \<Rightarrow> None | Some t \<Rightarrow> signedDigits t)"

definition daysRound :: "string \<Rightarrow> (string \<times> string) option" where
  "daysRound s = offsetRound ''days'' s"

definition monthsRound :: "string \<Rightarrow> (string \<times> string) option" where
  "monthsRound s = offsetRound ''months'' (dropWhile (\<lambda>c. c = CHR '','') s)"

definition yearsRound :: "string \<Rightarrow> (string \<times> string) option" where
  "yearsRound s = offsetRound ''years'' (dropWhile (\<lambda>c. c = CHR '','') s)"

function star :: "('a \<Rightarrow> string \<Rightarrow> ('a \<times> string) option) \<Rightarrow> 'a \<Rightarrow> string \<Rightarrow> 'a \<times> string" where
  "star round a s =
     (case round a s of
        None \<Rightarrow> (a, s)
      | Some (a', rest) \<Rightarrow> if length rest < length s then star round a' rest else (a, s))"
  by pat_completeness auto
termination
  by (relation "measure (\<lambda>(round, a, s). length s)") auto

definition keepLast :: "(string \<Rightarrow> (string \<times> string) option) \<Rightarrow> string \<Rightarrow> string \<Rightarrow> (string \<times> string) option" where
  "keepLast round old s = round s"

definition pipeRound :: "string \<times> string \<times> string \<Rightarrow> string \<Rightarrow> ((string \<times> string \<times> string) \<times> string) option" where
  "pipeRound caps s =
     (case caps of (d, m, y) \<Rightarrow>
        (case stripPrefix ''|'' s of
           None \<Rightarrow> None
         | Some t \<Rightarrow>
             (case star (keepLast daysRound) d t of (d', t1) \<Rightarrow>
                (case star (keepLast monthsRound) m t1 of (m', t2) \<Rightarrow>
                   (case star (keepLast yearsRound) y t2 of (y', t3) \<Rightarrow>
                      Some ((d', m', y'), t3))))))"

definition matchDates :: "string \<Rightarrow> (string \<times> string \<times> string) option" where
  "matchDates s =
     (case stripPrefix ''{$currentDate'' s of
        None \<Rightarrow> None
      | Some t \<Rightarrow>
          (case star pipeRound ([], [], []) t of (caps, r) \<Rightarrow>
             if hasPrefix r ''}'' then Some caps else None))"


section \<open>The interpolator\<close>

text \<open>
  \<open>ReplaceAllStringFunc(src, repl)\<close> cuts \<open>src\<close> into the leftmost matches of the
  pattern that do not overlap and the bytes between them, calls \<open>repl\<close> on each match
  in order and puts the results and the other bytes together.  The text that \<open>repl\<close>
  returns is not searched again.  No match of \<open>templatePlaceholderRegex\<close> is empty.
\<close>

datatype seg = Lit char | Span string

function segments :: "string \<Rightarrow> seg list" where
  "segments [] = []"
| "segments (c # cs) =
     (case matchPlaceholder (c # cs) of
        None \<Rightarrow> Lit c # segments cs
      | Some (m, rest) \<Rightarrow> Span m # segments rest)"
  by pat_completeness auto
termination
proof (relation "measure length")
  show "wf (measure length)" by simp
next
  fix c :: char and cs :: string
  show "(cs, c # cs) \<in> measure length" by simp
next
  fix c :: char and cs x m rest
  assume a: "matchPlaceholder (c # cs) = Some x" "(m, rest) = x"
  have drop_le: "\<And>P (xs :: string). length (tl (dropWhile P xs)) \<le> length xs"
  proof -
    fix P and xs :: string
    have "length (tl (dropWhile P xs)) \<le> length (dropWhile P xs)" by simp
    also have "\<dots> \<le> length xs" by (rule length_dropWhile_le)
    finally show "length (tl (dropWhile P xs)) \<le> length xs" .
  qed
  have strip_le: "\<And>p (s :: string) t. stripPrefix p s = Some t \<Longrightarrow> length t \<le> length s"
  proof -
    fix p s t show "stripPrefix p s = Some t \<Longrightarrow> length t \<le> length s"
      by (induction p s rule: stripPrefix.induct) (auto split: if_splits)
  qed
  from a obtain t where t: "stripPrefix ''{$'' (c # cs) = Some t"
    and r: "rest = tl (dropWhile (\<lambda>c. c = CHR '']'') (dropWhile isClassChar t))"
    by (auto simp: matchPlaceholder_def Let_def split: option.splits if_splits)
  from t have "length t < length (c # cs)"
    using strip_le[of "''$''" cs t] by (auto split: if_splits)
  moreover have "length rest \<le> length t"
    unfolding r using drop_le[of "\<lambda>c. c = CHR '']''" "dropWhile isClassChar t"]
      length_dropWhile_le[of isClassChar t] by linarith
  ultimately show "(rest, c # cs) \<in> measure length" by simp
qed

fun isSpan :: "seg \<Rightarrow> bool" where
  "isSpan (Span m) = True"
| "isSpan (Lit c) = False"

fun render :: "(nat \<Rightarrow> string \<Rightarrow> string res) \<Rightarrow> nat \<Rightarrow> seg list \<Rightarrow> string res" where
  "render repl k [] = Done [] []"
| "render repl k (Lit c # segs) = bind (render repl k segs) (\<lambda>t. Done (c # t) [])"
| "render repl k (Span m # segs) =
     bind (repl k m) (\<lambda>a. bind (render repl (Suc k) segs) (\<lambda>b. Done (a @ b) []))"

definition ReplaceAllStringFunc :: "string \<Rightarrow> (nat \<Rightarrow> string \<Rightarrow> string res) \<Rightarrow> string res" where
  "ReplaceAllStringFunc src repl = render repl 0 (segments src)"

text \<open>The number of callbacks a run over \<open>src\<close> makes.\<close>

definition callbacks :: "string \<Rightarrow> nat" where
  "callbacks src = length (filter isSpan (segments src))"

text \<open>
  The resolvers.  Go truncates the quotient of integers towards zero.  Indexing a slice
  outside its bounds panics.
\<close>

definition dateElements :: "obs \<Rightarrow> string \<Rightarrow> string" where
  "dateElements ob source =
     (case findFirst matchDates source of
        None \<Rightarrow> source
      | Some (days, months, years) \<Rightarrow>
          (let offsetDays = fst (Atoi days);
               offsetMonths = fst (Atoi months);
               offsetYears = fst (Atoi years)
           in Format (AddDate offsetYears offsetMonths offsetDays (Now ob))))"

definition timestampElements :: "obs \<Rightarrow> string" where
  "timestampElements ob = itoa (quot (unixNano ob) 1000000)"

definition index :: "string list \<Rightarrow> int \<Rightarrow> string res" where
  "index s i =
     (if 0 \<le> i \<and> nat i < length s then Done (s ! nat i) []
      else Panic ''index out of range'')"

definition randomElements :: "obs \<Rightarrow> string \<Rightarrow> string res" where
  "randomElements ob source =
     (case findFirst matchElements source of
        None \<Rightarrow> Done source []
      | Some elements \<Rightarrow>
          (let s = split CHR '','' elements
           in bind (Intn ob (int (length s))) (\<lambda>number. index s number)))"

definition rangeElements :: "obs \<Rightarrow> string \<Rightarrow> string res" where
  "rangeElements ob source =
     (case findFirst matchRange source of
        None \<Rightarrow> Done source []
      | Some (mn, mx) \<Rightarrow>
          (let min = fst (Atoi mn); max = fst (Atoi mx)
           in if min > max then Done source [''Invalid range. min > max'']
              else bind (Intn ob (wrap64 (max - min + 1)))
                     (\<lambda>r. Done (itoa (wrap64 (r + min))) [])))"

text \<open>
  The function that \<open>interpolatePlaceholders\<close> passes to \<open>ReplaceAllStringFunc\<close>.
  \<open>source\<close> is the whole string under interpolation and \<open>templateString\<close> the match.
\<close>

definition placeholderValue :: "obs \<Rightarrow> string \<Rightarrow> string \<Rightarrow> string res" where
  "placeholderValue ob source templateString =
     (if contains templateString ''currentDate'' then Done (dateElements ob templateString) []
      else if contains templateString ''currentTimestamp'' then Done (timestampElements ob) []
      else if contains templateString ''random'' then randomElements ob templateString
      else if contains templateString ''range'' then rangeElements ob templateString
      else Done source [])"

definition interpolatePlaceholders :: "world \<Rightarrow> string \<Rightarrow> string res" where
  "interpolatePlaceholders w source =
     ReplaceAllStringFunc source (\<lambda>k templateString. placeholderValue (w k) source templateString)"

section \<open>The request parser\<close>

record Request =
  Method :: string
  Path :: string
  Body :: "string option"

definition allowedHTTPMethods :: "string \<Rightarrow> unit option" where
  "allowedHTTPMethods =
     map_of [(''GET'', ()), (''HEAD'', ()), (''POST'', ()), (''PUT'', ()), (''PATCH'', ()),
             (''DELETE'', ()), (''CONNECT'', ()), (''OPTIONS'', ()), (''TRACE'', ())]"

text \<open>
  The two errors of \<open>ToHTTPRequest\<close>, each with the request string of its message.  The
  second message also names the upper-cased method, which is left out here.  The
  callbacks of the body come after those of the path.
\<close>

datatype flag_error = ExpectedFormat string | MethodNotSupported string

definition ToHTTPRequest :: "world \<Rightarrow> string \<Rightarrow> (flag_error + Request) res" where
  "ToHTTPRequest w requestString =
     (let parts = splitN CHR '':'' 3 requestString
      in if length parts < 2 then Done (Inl (ExpectedFormat requestString)) []
         else
           (let method = toUpper (parts ! 0)
            in if allowedHTTPMethods method = None
               then Done (Inl (MethodNotSupported requestString)) []
               else if length parts = 2
               then bind (interpolatePlaceholders w (parts ! 1))
                      (\<lambda>path. Done (Inr \<lparr>Method = method, Path = path, Body = None\<rparr>) [])
               else bind (interpolatePlaceholders w (parts ! 1))
                      (\<lambda>path.
                         bind (interpolatePlaceholders (\<lambda>k. w (callbacks (parts ! 1) + k)) (parts ! 2))
                           (\<lambda>body. Done (Inr \<lparr>Method = method, Path = path, Body = Some body\<rparr>) []))))"


section \<open>The gRPC client\<close>

text \<open>
  \<open>response.Response\<close> is declared outside the files at hand; \<open>SendRequest\<close> fills its
  fields \<open>Duration\<close>, \<open>Err\<close> and \<open>Type\<close>.  An error is its message, and \<open>nil\<close> is
  \<open>None\<close>.  The client holds the target, the flag of its \<open>sync.Once\<close>, and the
  connection, its close function and the descriptor source, all three unset until a
  connect succeeds.
\<close>

record Response =
  Duration :: int
  Err :: "string option"
  Type :: string

datatype conn = Conn string

datatype descriptorSource = ServerSource conn

datatype closer = CloseNothing | CloseConn conn

record Client =
  host :: string
  timeoutSeconds :: int
  insecure :: bool
  grpcConnectOnceDone :: bool
  connClose :: closer
  conn :: "conn option"
  descriptorSource :: "descriptorSource option"

definition NewClient :: "string \<Rightarrow> bool \<Rightarrow> int \<Rightarrow> Client" where
  "NewClient h i t =
     \<lparr>host = h, timeoutSeconds = t, insecure = i, grpcConnectOnceDone = False,
      connClose = CloseNothing, conn = None, descriptorSource = None\<rparr>"

text \<open>
  What the libraries under the client do during one call of \<open>SendRequest\<close>:
  \<open>grpc.DialContext\<close> gives an error or a connection;
  \<open>grpcurl.RequestParserAndFormatterFor\<close> gives an error or a parser for the message;
  \<open>grpcurl.InvokeRPC\<close> returns an error or \<open>nil\<close>, or panics; and the clock is read
  before and after the invocation.  Each is a function of the arguments the client
  passes.  \<open>SendRequest\<close> returns the response, the client as the call leaves it and
  the library calls it made, in order.  The log lines of the client are left out.
\<close>

datatype parser = Parser string

record libs =
  DialContext :: "string \<Rightarrow> bool \<Rightarrow> string + conn"
  RequestParserAndFormatterFor :: "descriptorSource option \<Rightarrow> string \<Rightarrow> string + parser"
  InvokeRPC :: "descriptorSource option \<Rightarrow> conn option \<Rightarrow> string \<Rightarrow> string list \<Rightarrow> parser \<Rightarrow> string option res"
  startTime :: int
  endTime :: int

datatype event = Dialed string | BuiltParser "descriptorSource option" | Invoked "conn option" string

definition connect :: "libs \<Rightarrow> Client \<Rightarrow> string list \<Rightarrow> string option \<times> Client" where
  "connect e c headers =
     (case DialContext e (host c) (insecure c) of
        Inl err \<Rightarrow> (Some (''gRPC dial: '' @ err), c)
      | Inr cn \<Rightarrow>
          (None, c\<lparr>conn := Some cn, connClose := CloseConn cn,
                    descriptorSource := Some (ServerSource cn)\<rparr>))"

definition SendRequest ::
  "libs \<Rightarrow> Client \<Rightarrow> string \<Rightarrow> string \<Rightarrow> string list \<Rightarrow> Response res \<times> Client \<times> event list" where
  "SendRequest e c serviceMethod message headers =
     (let respType = ''grpc'';
          (connErr, c1, ev) =
            (if grpcConnectOnceDone c then (None, c, [])
             else (case connect e c headers of
                     (r, c') \<Rightarrow> (r, c'\<lparr>grpcConnectOnceDone := True\<rparr>, [Dialed (host c)])))
      in case connErr of
           Some err \<Rightarrow> (Done \<lparr>Duration = 0, Err = Some err, Type = respType\<rparr> [], c1, ev)
         | None \<Rightarrow>
             (case RequestParserAndFormatterFor e (descriptorSource c1) message of
                Inl err \<Rightarrow>
                  (Done \<lparr>Duration = 0, Err = Some err, Type = respType\<rparr> [], c1,
                   ev @ [BuiltParser (descriptorSource c1)])
              | Inr requestParser \<Rightarrow>
                  (case InvokeRPC e (descriptorSource c1) (conn c1) serviceMethod headers requestParser of
                     Panic p \<Rightarrow>
                       (Panic p, c1,
                        ev @ [BuiltParser (descriptorSource c1), Invoked (conn c1) serviceMethod])
                   | Done err l \<Rightarrow>
                       (if err \<noteq> None
                        then Done \<lparr>Duration = endTime e - startTime e, Err = None, Type = respType\<rparr> []
                        else Done \<lparr>Duration = endTime e - startTime e, Err = None, Type = respType\<rparr> [],
                        c1,
                        ev @ [BuiltParser (descriptorSource c1), Invoked (conn c1) serviceMethod]))))"

text \<open>\<open>Close\<close> calls the close function of the client.\<close>

definition Close :: "Client \<Rightarrow> closer" where
  "Close c = connClose c"

section \<open>Notions used to state the properties\<close>

text \<open>
  A world in which every callback observes the same thing.
\<close>

definition fixedWorld :: "obs \<Rightarrow> world" where
  "fixedWorld ob k = ob"



text \<open>The number that a string of decimal digits denotes.\<close>

definition decimalValue :: "string \<Rightarrow> nat" where
  "decimalValue ds = foldl (\<lambda>a c. a * 10 + digitVal c) 0 ds"







definition daysOf :: "date \<Rightarrow> int" where
  "daysOf dt = (case dt of (year, month, day) \<Rightarrow> daysSinceEpoch year + yearDay year month day)"





text \<open>
  \<open>M\<close> spells the upper-case word \<open>V\<close> letter by letter, each letter in either case.
\<close>

definition isCasingOf :: "string \<Rightarrow> string \<Rightarrow> bool" where
  "isCasingOf M V =
     list_all2 (\<lambda>m v. m = v \<or> (m, v) \<in> set (zip ''abcdefghijklmnopqrstuvwxyz'' ''ABCDEFGHIJKLMNOPQRSTUVWXYZ'')) M V"


section \<open>Facts about the library functions, the patterns and the interpolator\<close>

lemma stripPrefix_Some_iff: "stripPrefix p s = Some t \<longleftrightarrow> s = p @ t"
  by (induction p s rule: stripPrefix.induct) auto

lemma hasPrefix_iff: "hasPrefix s p \<longleftrightarrow> (\<exists>t. s = p @ t)"
  by (auto simp: hasPrefix_def stripPrefix_Some_iff)

lemma hasPrefix_single: "hasPrefix s [c] \<longleftrightarrow> s \<noteq> [] \<and> hd s = c"
  by (cases s) (auto simp: hasPrefix_def)

lemma not_class [simp]:
  "\<not> isClassChar CHR '']''" "\<not> isClassChar CHR ''}''" "\<not> isClassChar CHR ''{''" "\<not> isClassChar CHR ''$''"
  by (simp_all add: isClassChar_def isWord_def)

lemma matchPlaceholder_Some_iff:
  "matchPlaceholder s = Some (m, rest) \<longleftrightarrow>
     (\<exists>run br. s = m @ rest \<and> m = ''{$'' @ run @ br @ ''}'' \<and> 2 \<le> length run \<and> isWord (hd run)
        \<and> (\<forall>c\<in>set run. isClassChar c) \<and> (\<forall>c\<in>set br. c = CHR '']''))"
  (is "?L \<longleftrightarrow> ?R")
proof
  assume ?L
  then obtain t where t: "s = ''{$'' @ t"
    by (auto simp: matchPlaceholder_def stripPrefix_Some_iff split: option.splits)
  define run where "run = takeWhile isClassChar t"
  define r1 where "r1 = dropWhile isClassChar t"
  define br where "br = takeWhile (\<lambda>c. c = CHR '']'') r1"
  define r where "r = dropWhile (\<lambda>c. c = CHR '']'') r1"
  from \<open>?L\<close> t have c: "2 \<le> length run" "isWord (hd run)" "hasPrefix r ''}''"
    and m: "m = ''{$'' @ run @ br @ ''}''" and rest: "rest = tl r"
    by (auto simp: matchPlaceholder_def Let_def run_def r1_def br_def r_def split: if_splits)
  from c(3) have r: "r = CHR ''}'' # rest" using rest by (cases r) (auto simp: hasPrefix_single)
  have "t = run @ r1" by (simp add: run_def r1_def)
  moreover have "r1 = br @ r" by (simp add: br_def r_def)
  ultimately have "s = m @ rest" using t m r by simp
  moreover have "\<forall>c\<in>set run. isClassChar c" unfolding run_def by (auto dest: set_takeWhileD)
  moreover have "\<forall>c\<in>set br. c = CHR '']''" unfolding br_def by (auto dest: set_takeWhileD)
  ultimately show ?R using m c by blast
next
  assume ?R
  then obtain run br where s: "s = m @ rest" and m: "m = ''{$'' @ run @ br @ ''}''"
    and c: "2 \<le> length run" "isWord (hd run)" "\<forall>c\<in>set run. isClassChar c" "\<forall>c\<in>set br. c = CHR '']''"
    by blast
  have t: "stripPrefix ''{$'' s = Some (run @ br @ CHR ''}'' # rest)"
    by (simp add: s m)
  have 1: "takeWhile isClassChar (run @ br @ CHR ''}'' # rest) = run"
       "dropWhile isClassChar (run @ br @ CHR ''}'' # rest) = br @ CHR ''}'' # rest"
    using c(3,4) by (cases br; simp)+
  have 2: "takeWhile (\<lambda>c. c = CHR '']'') (br @ CHR ''}'' # rest) = br"
       "dropWhile (\<lambda>c. c = CHR '']'') (br @ CHR ''}'' # rest) = CHR ''}'' # rest"
    using c(4) by (simp_all)
  show ?L
    unfolding matchPlaceholder_def t using c(1,2) by (simp add: 1 2 Let_def hasPrefix_def m)
qed

lemma matchPlaceholder_extend:
  assumes "matchPlaceholder u = Some (m, rest)"
  shows "matchPlaceholder (u @ z) = Some (m, rest @ z)"
proof -
  from assms obtain run br where "u = m @ rest" "m = ''{$'' @ run @ br @ ''}''" "2 \<le> length run"
     "isWord (hd run)" "\<forall>c\<in>set run. isClassChar c" "\<forall>c\<in>set br. c = CHR '']''"
    unfolding matchPlaceholder_Some_iff by blast
  then have "\<exists>run br. u @ z = m @ rest @ z \<and> m = ''{$'' @ run @ br @ ''}'' \<and> 2 \<le> length run \<and> isWord (hd run)
        \<and> (\<forall>c\<in>set run. isClassChar c) \<and> (\<forall>c\<in>set br. c = CHR '']'')"
    by (intro exI[of _ run] exI[of _ br]) simp
  then show ?thesis unfolding matchPlaceholder_Some_iff .
qed

lemma matchPlaceholder_brace:
  assumes "matchPlaceholder s = Some (m, rest)"
  shows "m \<noteq> []" and "hd m = CHR ''{''" and "CHR ''{'' \<notin> set (tl m)"
proof -
  from assms obtain run br where m: "m = ''{$'' @ run @ br @ ''}''"
    and c: "\<forall>c\<in>set run. isClassChar c" "\<forall>c\<in>set br. c = CHR '']''"
    unfolding matchPlaceholder_Some_iff by blast
  show "m \<noteq> []" "hd m = CHR ''{''" by (simp_all add: m)
  have "CHR ''{'' \<notin> set run" using c(1) by auto
  moreover have "CHR ''{'' \<notin> set br" using c(2) by auto
  ultimately show "CHR ''{'' \<notin> set (tl m)" by (simp add: m)
qed

lemma matchPlaceholder_None_extend:
  assumes "matchPlaceholder u = None" and "u \<noteq> []"
  shows "matchPlaceholder (u @ CHR ''{'' # z) = None"
proof (rule ccontr)
  assume "matchPlaceholder (u @ CHR ''{'' # z) \<noteq> None"
  then obtain m rest where some: "matchPlaceholder (u @ CHR ''{'' # z) = Some (m, rest)"
    by (cases "matchPlaceholder (u @ CHR ''{'' # z)") auto
  then have eq: "u @ CHR ''{'' # z = m @ rest"
    unfolding matchPlaceholder_Some_iff by blast
  note b = matchPlaceholder_brace[OF some]
  have "length m \<le> length u"
  proof (rule ccontr)
    assume "\<not> length m \<le> length u"
    then have lt: "length u < length m" by simp
    have "(u @ CHR ''{'' # z) ! length u = CHR ''{''" by simp
    with eq have "m ! length u = CHR ''{''" using lt by (simp add: nth_append)
    moreover from assms(2) lt obtain k where k: "length u = Suc k" "k < length (tl m)"
      by (cases u) auto
    ultimately have "tl m ! k = CHR ''{''" using b(1) by (cases m) auto
    with k(2) have "CHR ''{'' \<in> set (tl m)" by (metis nth_mem)
    with b(3) show False by simp
  qed
  with eq have "u = m @ drop (length m) u"
    by (metis append_eq_conv_conj append_take_drop_id take_append le_refl diff_is_0_eq' take_0 append_Nil2 take_all)
  then obtain u' where "u = m @ u'" ..
  with some have "matchPlaceholder u = Some (m, u')"
    unfolding matchPlaceholder_Some_iff by blast
  with assms(1) show False by simp
qed

lemma segments_span:
  assumes "matchPlaceholder (m @ post) = Some (m, post)"
  shows "segments (pre @ m @ post) = segments pre @ Span m # segments post"
proof (induction pre rule: segments.induct)
  case 1
  from matchPlaceholder_brace(1)[OF assms] obtain c cs where ccs: "m @ post = c # cs"
    by (cases m) auto
  have "segments (c # cs) = Span m # segments post"
    using assms unfolding ccs by simp
  then show ?case by (simp add: ccs)
next
  case (2 c cs)
  from matchPlaceholder_brace(1,2)[OF assms] obtain z where z: "m @ post = CHR ''{'' # z"
    by (cases m) auto
  show ?case
  proof (cases "matchPlaceholder (c # cs)")
    case None
    from matchPlaceholder_None_extend[OF None, of z]
    have "matchPlaceholder (c # cs @ m @ post) = None" by (simp add: z)
    then have "segments (c # cs @ m @ post) = Lit c # segments (cs @ m @ post)" by simp
    moreover have "segments (c # cs) = Lit c # segments cs" using None by simp
    ultimately show ?thesis using 2(1)[OF None] by simp
  next
    case (Some x)
    obtain x1 rest where x: "x = (x1, rest)" by (cases x)
    from matchPlaceholder_extend[of "c # cs" x1 rest "m @ post"] Some x
    have "matchPlaceholder (c # cs @ m @ post) = Some (x1, rest @ m @ post)" by simp
    then have "segments (c # cs @ m @ post) = Span x1 # segments (rest @ m @ post)" by simp
    moreover have "segments (c # cs) = Span x1 # segments rest" using Some x by simp
    ultimately show ?thesis using 2(2)[OF Some x[symmetric]] by simp
  qed
qed

lemma bind_Done_right [simp]: "bind m (\<lambda>a. Done a []) = m"
  by (cases m) auto

lemma render_append:
  "render repl k (xs @ ys) =
     bind (render repl k xs)
       (\<lambda>a. bind (render repl (k + length (filter isSpan xs)) ys) (\<lambda>b. Done (a @ b) []))"
proof (induction xs arbitrary: k)
  case Nil
  show ?case by (cases "render repl k ys") auto
next
  case (Cons x xs)
  show ?case
  proof (cases x)
    case (Lit c)
    show ?thesis
      by (cases "render repl k xs"; cases "render repl (k + length (filter isSpan xs)) ys")
         (auto simp: Lit Cons.IH)
  next
    case (Span m)
    show ?thesis
      by (cases "repl k m"; cases "render repl (Suc k) xs";
          cases "render repl (Suc (k + length (filter isSpan xs))) ys")
         (auto simp: Span Cons.IH)
  qed
qed


lemma res_case_id [simp]: "(case m of Panic x \<Rightarrow> Panic x | Done b l \<Rightarrow> Done b l) = m"
  by (cases m) auto

lemma res_case_id' [simp]: "(case m of Panic x \<Rightarrow> Panic x | Done b l \<Rightarrow> Done b ([] @ l)) = m"
  by (cases m) auto

lemma bind_Done_left [simp]: "bind (Done a []) f = f a"
  by (cases "f a") auto

lemma interpolate_span:
  assumes "matchPlaceholder (m @ post) = Some (m, post)"
  shows "interpolatePlaceholders w (pre @ m @ post) =
     bind (render (\<lambda>k t. placeholderValue (w k) (pre @ m @ post) t) 0 (segments pre))
       (\<lambda>a. bind (placeholderValue (w (callbacks pre)) (pre @ m @ post) m)
         (\<lambda>v. bind (render (\<lambda>k t. placeholderValue (w k) (pre @ m @ post) t) (Suc (callbacks pre)) (segments post))
           (\<lambda>b. Done (a @ v @ b) [])))"
  unfolding interpolatePlaceholders_def ReplaceAllStringFunc_def segments_span[OF assms]
    render_append callbacks_def
  by (cases "render (\<lambda>k t. placeholderValue (w k) (pre @ m @ post) t) 0 (segments pre)";
      cases "placeholderValue (w (length (filter isSpan (segments pre)))) (pre @ m @ post) m";
      cases "render (\<lambda>k t. placeholderValue (w k) (pre @ m @ post) t) (Suc (length (filter isSpan (segments pre)))) (segments post)")
     auto



lemma takeWhile_upto_sep: "sep \<notin> set t \<Longrightarrow> takeWhile (\<lambda>c. c \<noteq> sep) (t @ sep # rest) = t"
  by (induction t) auto

lemma dropWhile_upto_sep: "sep \<notin> set t \<Longrightarrow> dropWhile (\<lambda>c. c \<noteq> sep) (t @ sep # rest) = sep # rest"
  by (induction t) auto














lemma segments_single:
  assumes "matchPlaceholder s = Some (s, [])"
  shows "segments s = [Span s]"
proof -
  from matchPlaceholder_brace(1)[OF assms] obtain c cs where "s = c # cs" by (cases s) auto
  with assms show ?thesis by simp
qed

lemma interpolate_single:
  assumes "matchPlaceholder s = Some (s, [])"
  shows "interpolatePlaceholders w s = placeholderValue (w 0) s s"
  by (simp add: interpolatePlaceholders_def ReplaceAllStringFunc_def segments_single[OF assms])

lemma placeholder_whole:
  assumes "2 \<le> length run" and "isWord (hd run)" and "\<forall>c\<in>set run. isClassChar c"
  shows "matchPlaceholder (''{$'' @ run @ ''}'') = Some (''{$'' @ run @ ''}'', [])"
proof -
  have "\<exists>r br. ''{$'' @ run @ ''}'' = (''{$'' @ run @ ''}'') @ [] \<and> ''{$'' @ run @ ''}'' = ''{$'' @ r @ br @ ''}''
      \<and> 2 \<le> length r \<and> isWord (hd r) \<and> (\<forall>c\<in>set r. isClassChar c) \<and> (\<forall>c\<in>set br. c = CHR '']'')"
    using assms by (intro exI[of _ run] exI[of _ "[]"]) simp
  then show ?thesis unfolding matchPlaceholder_Some_iff .
qed



lemma digitVal_digitChar: "k < 10 \<Longrightarrow> digitVal (digitChar k) = k"
proof -
  assume "k < 10"
  then have "k = 0 \<or> k = 1 \<or> k = 2 \<or> k = 3 \<or> k = 4 \<or> k = 5 \<or> k = 6 \<or> k = 7 \<or> k = 8 \<or> k = 9"
    by arith
  then show ?thesis by (elim disjE) (simp_all add: digitVal_def digitChar_def)
qed

lemma isDigit_digitChar: "isDigit (digitChar k)"
proof -
  have "k mod 10 < 10" by simp
  then have "k mod 10 = 0 \<or> k mod 10 = 1 \<or> k mod 10 = 2 \<or> k mod 10 = 3 \<or> k mod 10 = 4
    \<or> k mod 10 = 5 \<or> k mod 10 = 6 \<or> k mod 10 = 7 \<or> k mod 10 = 8 \<or> k mod 10 = 9"
    by arith
  then show ?thesis by (elim disjE) (simp_all add: isDigit_def digitChar_def)
qed

lemma dec_digits: "list_all isDigit (dec n)"
  by (induction n rule: dec.induct) (subst dec.simps, simp add: isDigit_digitChar)

lemma decimalValue_snoc: "decimalValue (ds @ [c]) = decimalValue ds * 10 + digitVal c"
  by (simp add: decimalValue_def)

lemma decimalValue_dec: "decimalValue (dec n) = n"
proof (induction n rule: dec.induct)
  case (1 n)
  show ?case
  proof (cases "n < 10")
    case True
    then show ?thesis by (subst dec.simps) (simp add: decimalValue_def digitVal_digitChar)
  next
    case False
    with 1 have "decimalValue (dec (n div 10)) = n div 10" by simp
    with False show ?thesis
      by (subst dec.simps) (simp add: decimalValue_snoc digitVal_digitChar)
  qed
qed

lemma foldl_digits_mono: "a \<le> foldl (\<lambda>a c. a * 10 + digitVal c) a ds"
proof (induction ds arbitrary: a)
  case Nil show ?case by simp
next
  case (Cons c ds)
  have "a \<le> a * 10 + digitVal c" by simp
  also have "\<dots> \<le> foldl (\<lambda>a c. a * 10 + digitVal c) (a * 10 + digitVal c) ds" by (rule Cons.IH)
  finally show ?case by simp
qed

lemma parseUintLoop_digits:
  assumes "list_all isDigit ds" and "foldl (\<lambda>a c. a * 10 + digitVal c) a ds \<le> maxUint64"
  shows "parseUintLoop a ds = Num (foldl (\<lambda>a c. a * 10 + digitVal c) a ds)"
  using assms
proof (induction ds arbitrary: a)
  case Nil show ?case by simp
next
  case (Cons c ds)
  let ?a' = "a * 10 + digitVal c"
  from Cons.prems have d: "isDigit c" "list_all isDigit ds" by simp_all
  have "?a' \<le> foldl (\<lambda>a c. a * 10 + digitVal c) ?a' ds" by (rule foldl_digits_mono)
  with Cons.prems(2) have le: "?a' \<le> maxUint64" by simp
  then have "a < maxUint64 div 10 + 1" by (simp add: maxUint64_def)
  with le d Cons.IH[of ?a'] Cons.prems(2) show ?case by simp
qed

lemma Atoi_digits:
  assumes "ds \<noteq> []" and "list_all isDigit ds" and "int (decimalValue ds) \<le> maxInt64"
  shows "Atoi ds = (int (decimalValue ds), True)"
proof -
  from assms(1,2) obtain c cs where ds: "ds = c # cs" and c: "isDigit c" by (cases ds) auto
  from c have "c \<noteq> CHR ''-''" "c \<noteq> CHR ''+''" by (auto simp: isDigit_def)
  then have np: "\<not> hasPrefix ds ''-''" "\<not> hasPrefix ds ''+''" by (simp_all add: ds hasPrefix_def)
  from assms(3) have "decimalValue ds \<le> maxUint64" by (simp add: maxInt64_def maxUint64_def)
  with parseUintLoop_digits[OF assms(2), of 0] have "parseUint ds = Num (decimalValue ds)"
    using assms(1) by (simp add: parseUint_def decimalValue_def)
  with np assms(3) show ?thesis by (simp add: Atoi_def)
qed

lemma findFirst_matchRange:
  assumes "N \<noteq> []" and "M \<noteq> []" and "list_all isDigit N" and "list_all isDigit M"
  shows "findFirst matchRange (''{$range|min='' @ N @ '',max='' @ M @ ''}'') = Some (N, M)"
proof -
  have nd: "\<not> isDigit CHR '',''" "\<not> isDigit CHR ''}''" by (simp_all add: isDigit_def)
  from assms(3) nd have 1: "takeWhile isDigit (N @ CHR '','' # CHR ''m'' # CHR ''a'' # CHR ''x'' # CHR ''='' # M @ ''}'') = N"
    "dropWhile isDigit (N @ CHR '','' # CHR ''m'' # CHR ''a'' # CHR ''x'' # CHR ''='' # M @ ''}'') = '',max='' @ M @ ''}''"
    by (simp_all add: list_all_iff)
  from assms(4) nd have 2: "takeWhile isDigit (M @ ''}'') = M" "dropWhile isDigit (M @ ''}'') = ''}''"
    by (simp_all add: list_all_iff)
  have "matchRange (''{$range|min='' @ N @ '',max='' @ M @ ''}'') = Some (N, M)"
    using assms(1,2) by (simp add: matchRange_def 1 2 hasPrefix_def)
  then show ?thesis by simp
qed

lemma wrap64_id: "- (2 ^ 63) \<le> x \<Longrightarrow> x < 2 ^ 63 \<Longrightarrow> wrap64 x = x"
  by (simp add: wrap64_def)

lemma contains_subset: "contains s sub \<Longrightarrow> set sub \<subseteq> set s"
proof (induction s)
  case Nil then show ?case by simp
next
  case (Cons c s)
  show ?case
  proof (cases "hasPrefix (c # s) sub")
    case True
    then obtain t where "c # s = sub @ t" unfolding hasPrefix_iff ..
    then have "set (c # s) = set sub \<union> set t" by (metis set_append)
    then show ?thesis by blast
  next
    case False
    with Cons show ?thesis by auto
  qed
qed

lemma digit_is_class: "isDigit c \<Longrightarrow> isClassChar c"
  by (auto simp: isDigit_def isClassChar_def)

lemma placeholder_range:
  assumes "list_all isDigit N" and "list_all isDigit M"
  shows "matchPlaceholder (''{$range|min='' @ N @ '',max='' @ M @ ''}'')
     = Some (''{$range|min='' @ N @ '',max='' @ M @ ''}'', [])"
proof -
  have "\<forall>c\<in>set ''range|min=''. isClassChar c" "\<forall>c\<in>set '',max=''. isClassChar c"
    by (simp_all add: isClassChar_def isWord_def)
  with assms have "\<forall>c\<in>set (''range|min='' @ N @ '',max='' @ M). isClassChar c"
    unfolding set_append list_all_iff using digit_is_class by blast
  from placeholder_whole[OF _ _ this] show ?thesis by (simp add: isWord_def)
qed

lemma dispatch_range:
  assumes "list_all isDigit N" and "list_all isDigit M"
  shows "placeholderValue ob src (''{$range|min='' @ N @ '',max='' @ M @ ''}'')
     = rangeElements ob (''{$range|min='' @ N @ '',max='' @ M @ ''}'')"
proof -
  let ?s = "''{$range|min='' @ N @ '',max='' @ M @ ''}''"
  have nd: "\<not> isDigit CHR ''c''" "\<not> isDigit CHR ''d''" by (simp_all add: isDigit_def)
  with assms have "CHR ''c'' \<notin> set ?s" "CHR ''d'' \<notin> set ?s"
    by (auto simp: list_all_iff)
  then have "\<not> contains ?s ''currentDate''" "\<not> contains ?s ''currentTimestamp''" "\<not> contains ?s ''random''"
    using contains_subset[of ?s "''currentDate''"] contains_subset[of ?s "''currentTimestamp''"]
      contains_subset[of ?s "''random''"] by auto
  moreover have "contains ?s ''range''" by (simp add: hasPrefix_def)
  ultimately show ?thesis unfolding placeholderValue_def by (simp only: if_True if_False)
qed

lemma rangeElements_in_bounds:
  assumes "N \<noteq> []" and "M \<noteq> []" and "list_all isDigit N" and "list_all isDigit M"
    and "int (decimalValue N) \<le> maxInt64" and "int (decimalValue M) \<le> maxInt64"
    and "decimalValue N \<noteq> 0 \<or> int (decimalValue M) \<noteq> maxInt64"
    and "decimalValue N \<le> decimalValue M"
  shows "rangeElements ob (''{$range|min='' @ N @ '',max='' @ M @ ''}'')
     = Done (dec (decimalValue N + rnd ob mod (decimalValue M - decimalValue N + 1))) []"
proof -
  let ?n = "int (decimalValue N)" and ?m = "int (decimalValue M)"
  let ?k = "?m - ?n + 1"
  have k: "0 < ?k" "?k < 2 ^ 63" using assms(5-8) by (auto simp: maxInt64_def)
  then have wk: "wrap64 ?k = ?k" by (simp add: wrap64_id)
  let ?r = "int (rnd ob) mod ?k"
  have r: "0 \<le> ?r" "?r < ?k"
    using k(1) by (rule pos_mod_sign, rule pos_mod_bound)
  then have "- (2 ^ 63) \<le> ?r + ?n" "?r + ?n < 2 ^ 63" using assms(6) by (simp_all add: maxInt64_def)
  then have wr: "wrap64 (?r + ?n) = ?r + ?n" by (rule wrap64_id)
  have "?k = int (decimalValue M - decimalValue N + 1)" using assms(8) by simp
  then have "?r = int (rnd ob mod (decimalValue M - decimalValue N + 1))"
    by (simp only: zmod_int)
  then have v: "?r + ?n = int (decimalValue N + rnd ob mod (decimalValue M - decimalValue N + 1))"
    by simp
  have "\<not> ?r + ?n < 0" using r(1) by simp
  then have "itoa (?r + ?n) = dec (nat (?r + ?n))" by (simp only: itoa_def if_False)
  also have "nat (?r + ?n) = decimalValue N + rnd ob mod (decimalValue M - decimalValue N + 1)"
    by (simp only: v nat_int)
  finally have "itoa (?r + ?n) = dec (decimalValue N + rnd ob mod (decimalValue M - decimalValue N + 1))" .
  moreover have "?r \<le> ?m - ?n" using r(2) by linarith
  ultimately show ?thesis using k(1) wk wr assms(8)
    unfolding rangeElements_def findFirst_matchRange[OF assms(1-4)]
    by (simp add: Atoi_digits[OF assms(1,3,5)] Atoi_digits[OF assms(2,4,6)] Intn_def)
qed

lemma rangeElements_invalid:
  assumes "N \<noteq> []" and "M \<noteq> []" and "list_all isDigit N" and "list_all isDigit M"
    and "int (decimalValue N) \<le> maxInt64" and "int (decimalValue M) \<le> maxInt64"
    and "decimalValue M < decimalValue N"
  shows "rangeElements ob (''{$range|min='' @ N @ '',max='' @ M @ ''}'')
     = Done (''{$range|min='' @ N @ '',max='' @ M @ ''}'') [''Invalid range. min > max'']"
  unfolding rangeElements_def findFirst_matchRange[OF assms(1-4)]
  using assms(7) by (simp add: Atoi_digits[OF assms(1,3,5)] Atoi_digits[OF assms(2,4,6)])

section \<open>Facts about the calendar, the zones and the date pattern\<close>



lemma validDate_nextDay: "validDate dt \<Longrightarrow> validDate (nextDay dt)"
  by (cases dt) (auto simp: validDate_def daysIn_def)

lemma validDate_prevDay: "validDate dt \<Longrightarrow> validDate (prevDay dt)"
  by (cases dt) (auto simp: validDate_def daysIn_def)

lemma prev_next: "validDate dt \<Longrightarrow> prevDay (nextDay dt) = dt"
  by (cases dt) (auto simp: validDate_def daysIn_def)

lemma next_prev: "validDate dt \<Longrightarrow> nextDay (prevDay dt) = dt"
  by (cases dt) (auto simp: validDate_def daysIn_def)

lemma funpow_next_valid: "validDate dt \<Longrightarrow> validDate ((nextDay ^^ k) dt)"
  by (induction k) (simp_all add: validDate_nextDay del: nextDay.simps)

lemma funpow_prev_valid: "validDate dt \<Longrightarrow> validDate ((prevDay ^^ k) dt)"
  by (induction k) (simp_all add: validDate_prevDay del: prevDay.simps)

lemma shiftDays_valid: "validDate dt \<Longrightarrow> validDate (shiftDays n dt)"
  by (simp add: shiftDays_def funpow_next_valid funpow_prev_valid)

lemma shiftDays_0 [simp]: "shiftDays 0 dt = dt"
  by (simp add: shiftDays_def)

lemma shiftDays_succ:
  assumes "validDate dt"
  shows "shiftDays (n + 1) dt = nextDay (shiftDays n dt)"
proof (cases "0 \<le> n")
  case True
  then have "nat (n + 1) = Suc (nat n)" by simp
  with True show ?thesis by (simp add: shiftDays_def del: nextDay.simps)
next
  case False
  then obtain k where k: "nat (- n) = Suc k" by (cases "nat (- n)") auto
  then have k': "nat (- (n + 1)) = k" by simp
  have "nextDay (prevDay ((prevDay ^^ k) dt)) = (prevDay ^^ k) dt"
    by (rule next_prev[OF funpow_prev_valid[OF assms]])
  with False k k' show ?thesis
    by (cases "n = - 1") (simp_all add: shiftDays_def del: nextDay.simps prevDay.simps)
qed

lemma shiftDays_pred:
  assumes "validDate dt"
  shows "shiftDays (n - 1) dt = prevDay (shiftDays n dt)"
proof -
  have "prevDay (shiftDays n dt) = prevDay (nextDay (shiftDays (n - 1) dt))"
    using shiftDays_succ[OF assms, of "n - 1"] by simp
  also have "\<dots> = shiftDays (n - 1) dt"
    by (rule prev_next[OF shiftDays_valid[OF assms]])
  finally show ?thesis by simp
qed


lemma div_step:
  assumes "0 < n"
  shows "(y::int) div n - (y - 1) div n = (if y mod n = 0 then 1 else 0)"
proof -
  let ?q = "y div n" and ?r = "y mod n"
  have r: "0 \<le> ?r" "?r < n" using assms by simp_all
  have y: "y = ?q * n + ?r" by simp
  show ?thesis
  proof (cases "?r = 0")
    case True
    have "y - 1 = (?q - 1) * n + (n - 1)" using y True by (simp add: algebra_simps)
    then have "(y - 1) div n = (?q - 1) + (n - 1) div n"
      using assms by (metis div_mult_self3 add.commute less_irrefl)
    also have "(n - 1) div n = 0" using assms by (simp add: div_pos_pos_trivial)
    finally show ?thesis using True by simp
  next
    case False
    have "y - 1 = ?q * n + (?r - 1)" using y by linarith
    then have "(y - 1) div n = ?q + (?r - 1) div n"
      using assms by (metis div_mult_self3 add.commute less_irrefl)
    also have "(?r - 1) div n = 0" using r False by (simp add: div_pos_pos_trivial)
    finally show ?thesis using False by simp
  qed
qed

lemma mod_100_4: "(y::int) mod 100 = 0 \<Longrightarrow> y mod 4 = 0"
  using mod_mod_cancel[of 4 100 y] by simp

lemma mod_400_100: "(y::int) mod 400 = 0 \<Longrightarrow> y mod 100 = 0"
  using mod_mod_cancel[of 100 400 y] by simp

lemma leap_step:
  "(y div 4 - y div 100 + y div 400) - ((y - 1) div 4 - (y - 1) div 100 + (y - 1) div 400)
     = (if isLeap y then 1 else 0)" for y :: int
proof -
  have s4: "y div 4 - (y - 1) div 4 = (if y mod 4 = 0 then 1 else 0)" by (rule div_step) simp
  have s100: "y div 100 - (y - 1) div 100 = (if y mod 100 = 0 then 1 else 0)" by (rule div_step) simp
  have s400: "y div 400 - (y - 1) div 400 = (if y mod 400 = 0 then 1 else 0)" by (rule div_step) simp
  have "(y div 4 - y div 100 + y div 400) - ((y - 1) div 4 - (y - 1) div 100 + (y - 1) div 400)
      = (y div 4 - (y - 1) div 4) - (y div 100 - (y - 1) div 100) + (y div 400 - (y - 1) div 400)"
    by linarith
  also have "\<dots> = (if y mod 4 = 0 then 1 else 0) - (if y mod 100 = 0 then 1 else 0)
      + (if y mod 400 = 0 then 1 else 0)"
    unfolding s4 s100 s400 ..
  also have "\<dots> = (if isLeap y then 1 else 0)"
  proof (cases "y mod 400 = 0")
    case True
    with mod_400_100[OF True] mod_100_4[OF mod_400_100[OF True]] show ?thesis
      by (simp add: isLeap_def)
  next
    case False
    note n400 = this
    show ?thesis
    proof (cases "y mod 100 = 0")
      case True
      with n400 mod_100_4[OF True] show ?thesis by (simp add: isLeap_def)
    next
      case False
      with n400 show ?thesis by (simp add: isLeap_def)
    qed
  qed
  finally show ?thesis .
qed

lemma daysSinceEpoch_succ:
  "daysSinceEpoch (y + 1) = daysSinceEpoch y + 365 + (if isLeap y then 1 else 0)"
proof -
  define a where "a = y div 4 - y div 100 + y div 400"
  define b where "b = (y - 1) div 4 - (y - 1) div 100 + (y - 1) div 400"
  define l :: int where "l = (if isLeap y then 1 else 0)"
  have 1: "daysSinceEpoch (y + 1) = 365 * (y + 1 - 1970) + a - 477"
    unfolding daysSinceEpoch_def Let_def a_def by (simp only: add_diff_cancel_right')
  have 2: "daysSinceEpoch y = 365 * (y - 1970) + b - 477"
    unfolding daysSinceEpoch_def Let_def b_def ..
  from leap_step[of y] have "a - b = l" unfolding a_def b_def l_def .
  then have "a = b + l" by simp
  with 1 2 have "daysSinceEpoch (y + 1) = daysSinceEpoch y + 365 + l" by (simp add: algebra_simps)
  then show ?thesis unfolding l_def .
qed


lemma daysOf_next_month:
  assumes "1 \<le> m" "m < 12"
  shows "daysOf (y, m + 1, 1) = daysOf (y, m, daysIn y m) + 1"
proof -
  from assms have "m = 1 \<or> m = 2 \<or> m = 3 \<or> m = 4 \<or> m = 5 \<or> m = 6 \<or> m = 7 \<or> m = 8 \<or> m = 9 \<or> m = 10
    \<or> m = (11::int)" by arith
  then show ?thesis
    by (elim disjE) (simp_all add: daysOf_def yearDay_def daysBefore_def daysIn_def)
qed

lemma daysOf_next_year: "daysOf (y + 1, 1, 1) = daysOf (y, 12, 31) + 1"
  by (simp add: daysOf_def yearDay_def daysBefore_def daysSinceEpoch_succ)

lemma daysOf_day: "daysOf (y, m, d + k) = daysOf (y, m, d) + k"
  by (simp add: daysOf_def yearDay_def)

lemma daysOf_next:
  assumes "validDate dt"
  shows "daysOf (nextDay dt) = daysOf dt + 1"
proof -
  obtain y m d where dt: "dt = (y, m, d)" by (cases dt)
  from assms have v: "1 \<le> m" "m \<le> 12" "1 \<le> d" "d \<le> daysIn y m"
    by (simp_all add: validDate_def dt)
  show ?thesis
  proof (cases "d < daysIn y m")
    case True
    then show ?thesis using daysOf_day[of y m d 1] by (simp add: dt)
  next
    case False
    with v have d: "d = daysIn y m" by simp
    show ?thesis
    proof (cases "m < 12")
      case True
      with daysOf_next_month[OF v(1) True, of y] show ?thesis by (simp add: dt d)
    next
      case False
      with v have "m = 12" by simp
      with d have "d = 31" by (simp add: daysIn_def)
      with \<open>m = 12\<close> daysOf_next_year[of y] show ?thesis by (simp add: dt daysIn_def)
    qed
  qed
qed

lemma daysOf_prev:
  assumes "validDate dt"
  shows "daysOf (prevDay dt) = daysOf dt - 1"
  using daysOf_next[OF validDate_prevDay[OF assms]] next_prev[OF assms] by simp

lemma daysOf_shift:
  assumes "validDate dt"
  shows "daysOf (shiftDays n dt) = daysOf dt + n"
proof (induction n rule: int_induct[where k = 0])
  case base
  show ?case by simp
next
  case (step1 i)
  show ?case
    unfolding shiftDays_succ[OF assms] daysOf_next[OF shiftDays_valid[OF assms]] step1.IH by simp
next
  case (step2 i)
  show ?case
    unfolding shiftDays_pred[OF assms] daysOf_prev[OF shiftDays_valid[OF assms]] step2.IH by simp
qed

lemma daysSinceEpoch_1970: "daysSinceEpoch 1970 = 0"
  by (simp add: daysSinceEpoch_def)






lemma epoch_valid: "validDate (1970, 1, 1)"
  by (simp add: validDate_def daysIn_def)




lemma daysOf_absDate: "daysOf (absDate n) = n"
proof -
  have "daysOf (1970, 1, 1) = 0"
    by (simp add: daysOf_def daysSinceEpoch_1970 yearDay_def daysBefore_def)
  with daysOf_shift[OF epoch_valid, of n] show ?thesis by (simp add: absDate_def)
qed




















lemma not_digit_sep [simp]: "\<not> isDigit CHR '',''" "\<not> isDigit CHR ''}''" "\<not> isDigit CHR ''|''"
  by (simp_all add: isDigit_def)



















section \<open>Facts about the request parser\<close>

lemma splitN_no_sep [simp]: "sep \<notin> set s \<Longrightarrow> splitN sep (Suc (Suc n)) s = [s]"
  by simp

lemma splitN_step:
  "sep \<notin> set a \<Longrightarrow> splitN sep (Suc (Suc n)) (a @ sep # r) = a # splitN sep (Suc n) r"
  by (simp add: takeWhile_upto_sep dropWhile_upto_sep)

lemma splitN_colon_1: "CHR '':'' \<notin> set s \<Longrightarrow> splitN CHR '':'' 3 s = [s]"
  by (simp add: numeral_3_eq_3)

lemma splitN_colon_2:
  "CHR '':'' \<notin> set M \<Longrightarrow> CHR '':'' \<notin> set P \<Longrightarrow> splitN CHR '':'' 3 (M @ CHR '':'' # P) = [M, P]"
  by (simp add: numeral_3_eq_3 splitN_step del: splitN.simps(3))

lemma splitN_colon_3:
  "CHR '':'' \<notin> set M \<Longrightarrow> CHR '':'' \<notin> set P \<Longrightarrow>
   splitN CHR '':'' 3 (M @ CHR '':'' # P @ CHR '':'' # B) = [M, P, B]"
  by (simp add: numeral_3_eq_3 splitN_step del: splitN.simps(3))

lemma split_at_first:
  assumes "sep \<in> set s"
  obtains a r where "s = a @ sep # r" and "sep \<notin> set a" and "a = takeWhile (\<lambda>c. c \<noteq> sep) s"
proof -
  let ?a = "takeWhile (\<lambda>c. c \<noteq> sep) s" and ?d = "dropWhile (\<lambda>c. c \<noteq> sep) s"
  have "?d \<noteq> []" using assms by simp
  moreover have "hd ?d = sep" using assms hd_dropWhile[of "\<lambda>c. c \<noteq> sep" s] by auto
  ultimately have "?d = sep # tl ?d" by (cases ?d) auto
  then have "s = ?a @ sep # tl ?d" by (metis takeWhile_dropWhile_id)
  moreover have "sep \<notin> set ?a" by (auto dest: set_takeWhileD)
  ultimately show ?thesis using that by blast
qed

lemma ToHTTPRequest_no_colon:
  "CHR '':'' \<notin> set s \<Longrightarrow> ToHTTPRequest w s = Done (Inl (ExpectedFormat s)) []"
  by (simp add: ToHTTPRequest_def splitN_colon_1)

lemma ToHTTPRequest_bad_method:
  assumes "CHR '':'' \<notin> set M" and "allowedHTTPMethods (toUpper M) = None"
  shows "ToHTTPRequest w (M @ CHR '':'' # rest) = Done (Inl (MethodNotSupported (M @ CHR '':'' # rest))) []"
proof -
  have s: "splitN CHR '':'' 3 (M @ CHR '':'' # rest) = M # splitN CHR '':'' 2 rest"
    using assms(1) by (simp add: numeral_3_eq_3 numeral_2_eq_2 splitN_step del: splitN.simps(3))
  have "splitN CHR '':'' 2 rest \<noteq> []" by (simp add: numeral_2_eq_2)
  then have "\<not> length (M # splitN CHR '':'' 2 rest) < 2" by (cases "splitN CHR '':'' 2 rest") auto
  with assms(2) show ?thesis unfolding ToHTTPRequest_def s by (simp add: Let_def)
qed

lemma ToHTTPRequest_two_parts:
  assumes "CHR '':'' \<notin> set M" and "CHR '':'' \<notin> set P" and "allowedHTTPMethods (toUpper M) \<noteq> None"
  shows "ToHTTPRequest w (M @ CHR '':'' # P)
     = bind (interpolatePlaceholders w P)
         (\<lambda>path. Done (Inr \<lparr>Method = toUpper M, Path = path, Body = None\<rparr>) [])"
  using assms(3) unfolding ToHTTPRequest_def splitN_colon_2[OF assms(1,2)] by (simp add: Let_def)

lemma ToHTTPRequest_three_parts:
  assumes "CHR '':'' \<notin> set M" and "CHR '':'' \<notin> set P" and "allowedHTTPMethods (toUpper M) \<noteq> None"
  shows "ToHTTPRequest w (M @ CHR '':'' # P @ CHR '':'' # B)
     = bind (interpolatePlaceholders w P)
         (\<lambda>path. bind (interpolatePlaceholders (\<lambda>k. w (callbacks P + k)) B)
            (\<lambda>body. Done (Inr \<lparr>Method = toUpper M, Path = path, Body = Some body\<rparr>) []))"
  using assms(3) unfolding ToHTTPRequest_def splitN_colon_3[OF assms(1,2)] by (simp add: Let_def)

lemma ToHTTPRequest_error_iff:
  "(\<exists>e l. ToHTTPRequest w s = Done (Inl e) l) \<longleftrightarrow>
     (CHR '':'' \<notin> set s \<or> allowedHTTPMethods (toUpper (takeWhile (\<lambda>c. c \<noteq> CHR '':'') s)) = None)"
proof (cases "CHR '':'' \<in> set s")
  case False
  then show ?thesis by (simp add: ToHTTPRequest_no_colon)
next
  case True
  then obtain M rest where s: "s = M @ CHR '':'' # rest" and M: "CHR '':'' \<notin> set M"
    by (rule split_at_first)
  have tw: "takeWhile (\<lambda>c. c \<noteq> CHR '':'') (M @ CHR '':'' # rest) = M"
    using M by (rule takeWhile_upto_sep)
  have colon: "CHR '':'' \<in> set (M @ CHR '':'' # rest)" by simp
  show ?thesis
  proof (cases "allowedHTTPMethods (toUpper M) = None")
    case True
    have "\<exists>e l. ToHTTPRequest w (M @ CHR '':'' # rest) = Done (Inl e) l"
      unfolding ToHTTPRequest_bad_method[OF M True] by blast
    with True show ?thesis unfolding s tw by blast
  next
    case False
    have "\<not> (\<exists>e l. ToHTTPRequest w (M @ CHR '':'' # rest) = Done (Inl e) l)"
    proof (cases "CHR '':'' \<in> set rest")
      case False
      show ?thesis
        unfolding ToHTTPRequest_two_parts[OF M False \<open>allowedHTTPMethods (toUpper M) \<noteq> None\<close>]
        by (cases "interpolatePlaceholders w rest") auto
    next
      case True
      then obtain P B where r: "rest = P @ CHR '':'' # B" and P: "CHR '':'' \<notin> set P"
        by (rule split_at_first)
      show ?thesis
        unfolding r ToHTTPRequest_three_parts[OF M P \<open>allowedHTTPMethods (toUpper M) \<noteq> None\<close>]
        by (cases "interpolatePlaceholders w P"; cases "interpolatePlaceholders (\<lambda>k. w (callbacks P + k)) B") auto
    qed
    with False colon show ?thesis unfolding s tw by blast
  qed
qed

lemma toUpper_Cons_plain:
  "c \<noteq> CHR 0xC5 \<Longrightarrow> c \<noteq> CHR 0xC4 \<Longrightarrow> toUpper (c # cs) = upperChar c # toUpper cs"
  by (cases cs) auto

lemma lower_upper_codes:
  assumes "(m, v) \<in> set (zip ''abcdefghijklmnopqrstuvwxyz'' ''ABCDEFGHIJKLMNOPQRSTUVWXYZ'')"
  shows "(of_char m :: nat) = of_char v + 32 \<and> 65 \<le> (of_char v :: nat) \<and> (of_char v :: nat) \<le> 90"
  using assms by (simp, elim disjE conjE) simp_all

lemma upper_codes:
  assumes "v \<in> set ''ABCDEFGHIJKLMNOPQRSTUVWXYZ''"
  shows "65 \<le> (of_char v :: nat) \<and> (of_char v :: nat) \<le> 90"
  using assms by (simp, elim disjE) simp_all

lemma casing_char:
  assumes "v \<in> set ''ABCDEFGHIJKLMNOPQRSTUVWXYZ''"
    and "m = v \<or> (m, v) \<in> set (zip ''abcdefghijklmnopqrstuvwxyz'' ''ABCDEFGHIJKLMNOPQRSTUVWXYZ'')"
  shows "upperChar m = v \<and> m \<noteq> CHR 0xC5 \<and> m \<noteq> CHR 0xC4 \<and> m \<noteq> CHR '':''"
  using assms(2)
proof
  assume "m = v"
  with upper_codes[OF assms(1)] have c: "65 \<le> (of_char m :: nat)" "(of_char m :: nat) \<le> 90" by simp_all
  then have "upperChar m = m" by (simp add: upperChar_def)
  moreover from c have "m \<noteq> CHR 0xC5" "m \<noteq> CHR 0xC4" "m \<noteq> CHR '':''" by auto
  ultimately show ?thesis using \<open>m = v\<close> by simp
next
  assume "(m, v) \<in> set (zip ''abcdefghijklmnopqrstuvwxyz'' ''ABCDEFGHIJKLMNOPQRSTUVWXYZ'')"
  from lower_upper_codes[OF this]
  have c: "(of_char m :: nat) = of_char v + 32" "65 \<le> (of_char v :: nat)" "(of_char v :: nat) \<le> 90"
    by simp_all
  then have "upperChar m = v" by (simp add: upperChar_def)
  moreover from c have "m \<noteq> CHR 0xC5" "m \<noteq> CHR 0xC4" "m \<noteq> CHR '':''" by auto
  ultimately show ?thesis by simp
qed

lemma toUpper_casing:
  "isCasingOf M V \<Longrightarrow> (\<forall>v\<in>set V. v \<in> set ''ABCDEFGHIJKLMNOPQRSTUVWXYZ'') \<longrightarrow>
     toUpper M = V \<and> CHR '':'' \<notin> set M"
  unfolding isCasingOf_def
proof (induction M V rule: list_all2_induct)
  case Nil
  show ?case by simp
next
  case (Cons m M v V)
  show ?case
  proof
    assume a: "\<forall>v\<in>set (v # V). v \<in> set ''ABCDEFGHIJKLMNOPQRSTUVWXYZ''"
    then have v: "v \<in> set ''ABCDEFGHIJKLMNOPQRSTUVWXYZ''" by simp
    from a Cons.IH have ih: "toUpper M = V" "CHR '':'' \<notin> set M" by simp_all
    from casing_char[OF v Cons.hyps(1)] ih show "toUpper (m # M) = v # V \<and> CHR '':'' \<notin> set (m # M)"
      by (auto simp: toUpper_Cons_plain)
  qed
qed

lemma allowed_cases:
  "allowedHTTPMethods V \<noteq> None \<Longrightarrow>
   V \<in> set [''GET'', ''HEAD'', ''POST'', ''PUT'', ''PATCH'', ''DELETE'', ''CONNECT'', ''OPTIONS'', ''TRACE'']"
  by (simp add: allowedHTTPMethods_def split: if_splits)

lemma allowed_upper:
  assumes "allowedHTTPMethods V \<noteq> None"
  shows "\<forall>v\<in>set V. v \<in> set ''ABCDEFGHIJKLMNOPQRSTUVWXYZ''"
  using allowed_cases[OF assms] by (simp, elim disjE) simp_all

lemma toUpper_verb:
  assumes "isCasingOf M V" and "allowedHTTPMethods V \<noteq> None"
  shows "toUpper M = V" and "CHR '':'' \<notin> set M"
  using toUpper_casing[OF assms(1)] allowed_upper[OF assms(2)] by blast+

lemma segments_no_span: "filter isSpan (segments s) = [] \<Longrightarrow> segments s = map Lit s"
proof (induction s rule: segments.induct)
  case 1 show ?case by simp
next
  case (2 c cs)
  show ?case
  proof (cases "matchPlaceholder (c # cs)")
    case None
    then have s: "segments (c # cs) = Lit c # segments cs" by simp
    with 2(3) have "filter isSpan (segments cs) = []" by simp
    from 2(1)[OF None this] s show ?thesis by simp
  next
    case (Some x)
    obtain m rest where "x = (m, rest)" by (cases x)
    with Some have "segments (c # cs) = Span m # segments rest" by simp
    with 2(3) show ?thesis by simp
  qed
qed

lemma render_literals: "render repl k (map Lit s) = Done s []"
  by (induction s) simp_all

lemma interpolate_no_placeholder:
  assumes "callbacks s = 0"
  shows "interpolatePlaceholders w s = Done s []"
proof -
  from assms have "filter isSpan (segments s) = []" by (simp add: callbacks_def)
  then have "segments s = map Lit s" by (rule segments_no_span)
  then show ?thesis
    by (simp add: interpolatePlaceholders_def ReplaceAllStringFunc_def render_literals)
qed

lemmas interp_defs = interpolatePlaceholders_def ReplaceAllStringFunc_def
  matchPlaceholder_def placeholderValue_def hasPrefix_def isClassChar_def isWord_def
  rangeElements_def matchRange_def isDigit_def Atoi_def parseUint_def digitVal_def maxUint64_def
  maxInt64_def wrap64_def Intn_def itoa_def dec.simps digitChar_def

lemma ToHTTPRequest_method_of_casing:
  assumes "isCasingOf M V" and "allowedHTTPMethods V \<noteq> None"
  shows "CHR '':'' \<notin> set P \<longrightarrow>
           ToHTTPRequest w (M @ CHR '':'' # P)
             = bind (interpolatePlaceholders w P)
                 (\<lambda>path. Done (Inr \<lparr>Method = V, Path = path, Body = None\<rparr>) [])"
    and "CHR '':'' \<notin> set P \<longrightarrow>
           ToHTTPRequest w (M @ CHR '':'' # P @ CHR '':'' # B)
             = bind (interpolatePlaceholders w P)
                 (\<lambda>path. bind (interpolatePlaceholders (\<lambda>k. w (callbacks P + k)) B)
                    (\<lambda>body. Done (Inr \<lparr>Method = V, Path = path, Body = Some body\<rparr>) []))"
proof -
  note u = toUpper_verb[OF assms]
  from assms(2) u(1) have a: "allowedHTTPMethods (toUpper M) \<noteq> None" by simp
  show "CHR '':'' \<notin> set P \<longrightarrow>
           ToHTTPRequest w (M @ CHR '':'' # P)
             = bind (interpolatePlaceholders w P)
                 (\<lambda>path. Done (Inr \<lparr>Method = V, Path = path, Body = None\<rparr>) [])"
    using ToHTTPRequest_two_parts[OF u(2) _ a, of P w] u(1) by simp
  show "CHR '':'' \<notin> set P \<longrightarrow>
           ToHTTPRequest w (M @ CHR '':'' # P @ CHR '':'' # B)
             = bind (interpolatePlaceholders w P)
                 (\<lambda>path. bind (interpolatePlaceholders (\<lambda>k. w (callbacks P + k)) B)
                    (\<lambda>body. Done (Inr \<lparr>Method = V, Path = path, Body = Some body\<rparr>) []))"
    using ToHTTPRequest_three_parts[OF u(2) _ a, of P w B] u(1) by simp
qed


section \<open>The interpolator: placeholders with an unknown name\<close>

text \<open>
  C4.  A placeholder whose name is none of the four known ones must stay in the output
  byte for byte, with the text around it unchanged.  The callback returns \<open>source\<close> for
  such a placeholder, which in the closure is the whole string under interpolation and
  not the match, as it is inside the resolvers: the whole string takes the place of
  the placeholder.  Here \<^verbatim>\<open>a{$bogus}b\<close> becomes \<^verbatim>\<open>aa{$bogus}bb\<close>, whatever the clock
  and the random numbers are.
\<close>

theorem unknown_placeholder_not_left_in_place:
  "interpolatePlaceholders w ''a{$bogus}b'' = Done ''aa{$bogus}bb'' []"
  by code_simp

text \<open>
  C5, as amended.  Let a match \<open>m\<close> of the placeholder pattern stand in the source
  string between \<open>pre\<close> and \<open>post\<close>, and let \<open>m\<close> contain none of \<open>currentDate\<close>,
  \<open>currentTimestamp\<close>, \<open>random\<close> and \<open>range\<close>.  Then the callback returns the whole source
  string for \<open>m\<close>, and the result of the interpolation is \<open>a\<close>, the source string and
  \<open>b\<close> in a row, where \<open>a\<close> and \<open>b\<close> are what the same run makes of \<open>pre\<close> and of
  \<open>post\<close>; the run panics if it panics on one of them.  So a result is never shorter than
  the source string, and it is the source string itself only if both \<open>a\<close> and \<open>b\<close> are
  empty.
\<close>

theorem unknown_placeholder_becomes_source:
  assumes "matchPlaceholder (m @ post) = Some (m, post)"
    and "\<not> contains m ''currentDate''" and "\<not> contains m ''currentTimestamp''"
    and "\<not> contains m ''random''" and "\<not> contains m ''range''"
  shows "placeholderValue ob (pre @ m @ post) m = Done (pre @ m @ post) []
    \<and> interpolatePlaceholders w (pre @ m @ post) =
        bind (render (\<lambda>k t. placeholderValue (w k) (pre @ m @ post) t) 0 (segments pre))
          (\<lambda>a. bind (render (\<lambda>k t. placeholderValue (w k) (pre @ m @ post) t) (Suc (callbacks pre)) (segments post))
            (\<lambda>b. Done (a @ (pre @ m @ post) @ b) []))
    \<and> (\<forall>out l. interpolatePlaceholders w (pre @ m @ post) = Done out l \<longrightarrow>
          (\<exists>a b. out = a @ (pre @ m @ post) @ b \<and> (out = pre @ m @ post \<longleftrightarrow> a = [] \<and> b = [])))"
proof -
  let ?s = "pre @ m @ post"
  let ?R = "\<lambda>k t. placeholderValue (w k) ?s t"
  have v: "\<And>ob. placeholderValue ob ?s m = Done ?s []"
    using assms(2-5) by (simp add: placeholderValue_def)
  have eq: "interpolatePlaceholders w ?s =
        bind (render ?R 0 (segments pre))
          (\<lambda>a. bind (render ?R (Suc (callbacks pre)) (segments post)) (\<lambda>b. Done (a @ ?s @ b) []))"
    unfolding interpolate_span[OF assms(1)] v by simp
  have "\<exists>a b. out = a @ ?s @ b \<and> (out = ?s \<longleftrightarrow> a = [] \<and> b = [])"
    if "interpolatePlaceholders w ?s = Done out l" for out l
  proof -
    from that obtain a b where out: "out = a @ ?s @ b"
      unfolding eq
      by (cases "render ?R 0 (segments pre)"; cases "render ?R (Suc (callbacks pre)) (segments post)") auto
    have "a @ ?s @ b = ?s \<longleftrightarrow> a = [] \<and> b = []"
    proof
      assume e: "a @ ?s @ b = ?s"
      then have "length (a @ ?s @ b) = length ?s" by simp
      then show "a = [] \<and> b = []" by simp
    qed simp
    with out show ?thesis by blast
  qed
  with v eq show ?thesis by blast
qed

text \<open>An instance: \<^verbatim>\<open>{$bogus}\<close> between \<^verbatim>\<open>a\<close> and \<^verbatim>\<open>b\<close>.\<close>

theorem unknown_placeholder_becomes_source_witness:
  "matchPlaceholder (''{$bogus}'' @ ''b'') = Some (''{$bogus}'', ''b'')
   \<and> \<not> contains ''{$bogus}'' ''currentDate'' \<and> \<not> contains ''{$bogus}'' ''currentTimestamp''
   \<and> \<not> contains ''{$bogus}'' ''random'' \<and> \<not> contains ''{$bogus}'' ''range''
   \<and> placeholderValue \<lparr>unixNano = 0, rnd = 0, Local = UTC\<rparr> (''a'' @ ''{$bogus}'' @ ''b'') ''{$bogus}''
       = Done ''a{$bogus}b'' []
   \<and> interpolatePlaceholders (fixedWorld \<lparr>unixNano = 0, rnd = 0, Local = UTC\<rparr>) (''a'' @ ''{$bogus}'' @ ''b'')
       = Done ''aa{$bogus}bb'' []"
proof -
  have h: "matchPlaceholder (''{$bogus}'' @ ''b'') = Some (''{$bogus}'', ''b'')"
    "\<not> contains ''{$bogus}'' ''currentDate''" "\<not> contains ''{$bogus}'' ''currentTimestamp''"
    "\<not> contains ''{$bogus}'' ''random''" "\<not> contains ''{$bogus}'' ''range''"
    by code_simp+
  have "interpolatePlaceholders (fixedWorld \<lparr>unixNano = 0, rnd = 0, Local = UTC\<rparr>) (''a'' @ ''{$bogus}'' @ ''b'')
       = Done ''aa{$bogus}bb'' []" by code_simp
  with h unknown_placeholder_becomes_source[OF h, of "\<lparr>unixNano = 0, rnd = 0, Local = UTC\<rparr>" "''a''"
     "fixedWorld \<lparr>unixNano = 0, rnd = 0, Local = UTC\<rparr>"]
  show ?thesis by simp
qed

text \<open>
  The claim as first stated says that the result differs from the source string whenever
  there is text outside the match.  In \<^verbatim>\<open>{$random|,}{$bogus}\<close> the first placeholder is
  a list of two empty tokens and becomes the empty string, and the second one becomes the
  whole source string: the result is the source string again.
\<close>

theorem unknown_placeholder_counterexample:
  "matchPlaceholder (''{$bogus}'' @ []) = Some (''{$bogus}'', [])
   \<and> \<not> contains ''{$bogus}'' ''currentDate'' \<and> \<not> contains ''{$bogus}'' ''currentTimestamp''
   \<and> \<not> contains ''{$bogus}'' ''random'' \<and> \<not> contains ''{$bogus}'' ''range''
   \<and> ''{$random|,}'' \<noteq> []
   \<and> interpolatePlaceholders (fixedWorld \<lparr>unixNano = 0, rnd = 0, Local = UTC\<rparr>)
         (''{$random|,}'' @ ''{$bogus}'' @ [])
       = Done (''{$random|,}'' @ ''{$bogus}'' @ []) []"
  by code_simp

section \<open>The interpolator: ranges\<close>

text \<open>
  C6, as amended.  Let \<open>N\<close> and \<open>M\<close> be strings of decimal digits whose numbers fit a
  64-bit \<open>int\<close>, and not the pair of 0 and the greatest \<open>int\<close>.  If the number of \<open>N\<close> is
  at most that of \<open>M\<close>, interpolating \<^verbatim>\<open>{$range|min=N,max=M}\<close> gives a string of decimal
  digits whose number lies between the two, bounds included: it is the lower bound plus
  the random number modulo the count of numbers in the interval.  If the number of \<open>N\<close>
  is greater, the result is the placeholder itself, one warning is logged, and nothing
  panics.
\<close>

theorem range_resolves_within_bounds:
  assumes "N \<noteq> []" and "M \<noteq> []" and "list_all isDigit N" and "list_all isDigit M"
    and "int (decimalValue N) \<le> maxInt64" and "int (decimalValue M) \<le> maxInt64"
    and "decimalValue N \<noteq> 0 \<or> int (decimalValue M) \<noteq> maxInt64"
  shows "(decimalValue N \<le> decimalValue M \<longrightarrow>
           (\<exists>v. interpolatePlaceholders w (''{$range|min='' @ N @ '',max='' @ M @ ''}'') = Done (dec v) []
              \<and> v = decimalValue N + rnd (w 0) mod (decimalValue M - decimalValue N + 1)
              \<and> list_all isDigit (dec v) \<and> decimalValue (dec v) = v
              \<and> decimalValue N \<le> v \<and> v \<le> decimalValue M))
     \<and> (decimalValue M < decimalValue N \<longrightarrow>
           interpolatePlaceholders w (''{$range|min='' @ N @ '',max='' @ M @ ''}'')
             = Done (''{$range|min='' @ N @ '',max='' @ M @ ''}'') [''Invalid range. min > max''])"
proof -
  let ?s = "''{$range|min='' @ N @ '',max='' @ M @ ''}''"
  have i: "interpolatePlaceholders w ?s = rangeElements (w 0) ?s"
    unfolding interpolate_single[OF placeholder_range[OF assms(3,4)]] dispatch_range[OF assms(3,4)] ..
  have a: "\<exists>v. interpolatePlaceholders w ?s = Done (dec v) []
              \<and> v = decimalValue N + rnd (w 0) mod (decimalValue M - decimalValue N + 1)
              \<and> list_all isDigit (dec v) \<and> decimalValue (dec v) = v
              \<and> decimalValue N \<le> v \<and> v \<le> decimalValue M" if le: "decimalValue N \<le> decimalValue M"
  proof -
    let ?v = "decimalValue N + rnd (w 0) mod (decimalValue M - decimalValue N + 1)"
    have "rnd (w 0) mod Suc (decimalValue M - decimalValue N) \<le> decimalValue M - decimalValue N"
      by (rule mod_Suc_le_divisor)
    with le have "decimalValue N + rnd (w 0) mod Suc (decimalValue M - decimalValue N) \<le> decimalValue M"
      by linarith
    with i rangeElements_in_bounds[OF assms le, of "w 0"] show ?thesis
      by (simp add: dec_digits decimalValue_dec)
  qed
  have b: "interpolatePlaceholders w ?s = Done ?s [''Invalid range. min > max'']"
    if "decimalValue M < decimalValue N"
    using i rangeElements_invalid[OF assms(1-6) that, of "w 0"] by simp
  from a b show ?thesis by blast
qed

text \<open>
  Two instances: \<^verbatim>\<open>{$range|min=5,max=5}\<close> becomes \<^verbatim>\<open>5\<close>, and \<^verbatim>\<open>{$range|min=10,max=1}\<close>
  stays as it is and logs the warning.
\<close>

theorem range_resolves_within_bounds_witness:
  "''5'' \<noteq> [] \<and> list_all isDigit ''5'' \<and> int (decimalValue ''5'') \<le> maxInt64
   \<and> ''10'' \<noteq> [] \<and> ''1'' \<noteq> [] \<and> list_all isDigit ''10'' \<and> list_all isDigit ''1''
   \<and> int (decimalValue ''10'') \<le> maxInt64 \<and> int (decimalValue ''1'') \<le> maxInt64
   \<and> decimalValue ''5'' \<noteq> 0 \<and> decimalValue ''10'' \<noteq> 0
   \<and> decimalValue ''5'' \<le> decimalValue ''5'' \<and> decimalValue ''1'' < decimalValue ''10''
   \<and> interpolatePlaceholders (fixedWorld \<lparr>unixNano = 0, rnd = 7, Local = UTC\<rparr>) ''{$range|min=5,max=5}''
        = Done ''5'' []
   \<and> interpolatePlaceholders (fixedWorld \<lparr>unixNano = 0, rnd = 7, Local = UTC\<rparr>) ''{$range|min=10,max=1}''
        = Done ''{$range|min=10,max=1}'' [''Invalid range. min > max'']"
proof -
  have v: "decimalValue ''5'' = 5" "decimalValue ''10'' = 10" "decimalValue ''1'' = 1"
    by (simp_all add: decimalValue_def digitVal_def)
  have d: "list_all isDigit ''5''" "list_all isDigit ''10''" "list_all isDigit ''1''"
    by (simp_all add: isDigit_def)
  have m: "int (decimalValue ''5'') \<le> maxInt64" "int (decimalValue ''10'') \<le> maxInt64"
    "int (decimalValue ''1'') \<le> maxInt64"
    by (simp_all add: v maxInt64_def)
  have "dec 5 = ''5''" by (simp add: dec.simps digitChar_def)
  with range_resolves_within_bounds[of "''5''" "''5''" "fixedWorld \<lparr>unixNano = 0, rnd = 7, Local = UTC\<rparr>"]
    range_resolves_within_bounds[of "''10''" "''1''" "fixedWorld \<lparr>unixNano = 0, rnd = 7, Local = UTC\<rparr>"]
    d m
  show ?thesis by (simp add: v)
qed

text \<open>
  The claim as first stated covers all numbers that are not negative.  From 0 to the
  greatest \<open>int\<close> the size of the interval wraps around to a negative number and
  \<open>rand.Intn\<close> panics; and bounds beyond the greatest \<open>int\<close> are read as the greatest
  \<open>int\<close>, so that the result is not between the bounds as written.
\<close>

theorem range_resolves_counterexample:
  "rangeElements \<lparr>unixNano = 0, rnd = 7, Local = UTC\<rparr> ''{$range|min=0,max=9223372036854775807}''
     = Panic ''invalid argument to Intn''
   \<and> rangeElements \<lparr>unixNano = 0, rnd = 7, Local = UTC\<rparr>
        ''{$range|min=99999999999999999999,max=99999999999999999999}''
     = Done ''9223372036854775807'' []"
  by (simp add: rangeElements_def matchRange_def hasPrefix_def isDigit_def Atoi_def parseUint_def
      digitVal_def maxUint64_def maxInt64_def wrap64_def Intn_def itoa_def dec.simps digitChar_def)

section \<open>The interpolator: random picks\<close>


section \<open>The interpolator: dates\<close>





section \<open>The request parser: what parsing returns\<close>

text \<open>
  C8, as amended.  Let a descriptor be \<open>M\<close>, a colon, \<open>P\<close>, a colon and \<open>B\<close>, where \<open>M\<close>
  and \<open>P\<close> hold no colon and \<open>M\<close> is an allowed method in upper case.  Whatever \<open>B\<close> is,
  colons included, parsing splits at the first two colons only and hands the whole of
  \<open>B\<close> to the interpolator: the request, when the interpolation of \<open>P\<close> and then of
  \<open>B\<close> gives it, has the interpolated \<open>B\<close> as its body.  If \<open>B\<close> holds no match of the
  placeholder pattern, its interpolation is \<open>B\<close>; if \<open>P\<close> holds none either, parsing
  returns the request whose path is \<open>P\<close> and whose body is \<open>B\<close>, byte for byte.
\<close>

theorem body_is_interpolated_remainder:
  assumes "CHR '':'' \<notin> set M" and "CHR '':'' \<notin> set P" and "allowedHTTPMethods (toUpper M) \<noteq> None"
  shows "ToHTTPRequest w (M @ CHR '':'' # P @ CHR '':'' # B)
       = bind (interpolatePlaceholders w P)
           (\<lambda>path. bind (interpolatePlaceholders (\<lambda>k. w (callbacks P + k)) B)
              (\<lambda>body. Done (Inr \<lparr>Method = toUpper M, Path = path, Body = Some body\<rparr>) []))
    \<and> (callbacks B = 0 \<longrightarrow> interpolatePlaceholders (\<lambda>k. w (callbacks P + k)) B = Done B [])
    \<and> (callbacks P = 0 \<and> callbacks B = 0 \<longrightarrow>
         ToHTTPRequest w (M @ CHR '':'' # P @ CHR '':'' # B)
           = Done (Inr \<lparr>Method = toUpper M, Path = P, Body = Some B\<rparr>) [])"
proof -
  note t = ToHTTPRequest_three_parts[OF assms, of w B]
  have "ToHTTPRequest w (M @ CHR '':'' # P @ CHR '':'' # B)
           = Done (Inr \<lparr>Method = toUpper M, Path = P, Body = Some B\<rparr>) []"
    if "callbacks P = 0" "callbacks B = 0"
    unfolding t interpolate_no_placeholder[OF that(1)] interpolate_no_placeholder[OF that(2)]
    by simp
  with t show ?thesis by (simp add: interpolate_no_placeholder)
qed

text \<open>An instance: \<^verbatim>\<open>post:/p:a:b:c\<close> has the body \<^verbatim>\<open>a:b:c\<close>.\<close>

theorem body_is_interpolated_remainder_witness:
  "CHR '':'' \<notin> set ''post'' \<and> CHR '':'' \<notin> set ''/p'' \<and> allowedHTTPMethods (toUpper ''post'') \<noteq> None
   \<and> callbacks ''/p'' = 0 \<and> callbacks ''a:b:c'' = 0
   \<and> ToHTTPRequest (fixedWorld \<lparr>unixNano = 0, rnd = 0, Local = UTC\<rparr>) ''post:/p:a:b:c''
       = Done (Inr \<lparr>Method = ''POST'', Path = ''/p'', Body = Some ''a:b:c''\<rparr>) []"
proof -
  have h: "CHR '':'' \<notin> set ''post''" "CHR '':'' \<notin> set ''/p''" "allowedHTTPMethods (toUpper ''post'') \<noteq> None"
    by code_simp+
  have c: "callbacks ''/p'' = 0" "callbacks ''a:b:c'' = 0" by code_simp+
  have u: "toUpper ''post'' = ''POST''" by code_simp
  let ?W = "fixedWorld \<lparr>unixNano = 0, rnd = 0, Local = UTC\<rparr>"
  from body_is_interpolated_remainder[OF h, of ?W "''a:b:c''"]
  have "callbacks ''/p'' = 0 \<and> callbacks ''a:b:c'' = 0 \<longrightarrow>
      ToHTTPRequest ?W (''post'' @ CHR '':'' # ''/p'' @ CHR '':'' # ''a:b:c'')
        = Done (Inr \<lparr>Method = toUpper ''post'', Path = ''/p'', Body = Some ''a:b:c''\<rparr>) []"
    by blast
  with c have "ToHTTPRequest ?W (''post'' @ CHR '':'' # ''/p'' @ CHR '':'' # ''a:b:c'')
        = Done (Inr \<lparr>Method = toUpper ''post'', Path = ''/p'', Body = Some ''a:b:c''\<rparr>) []"
    by blast
  then have "ToHTTPRequest ?W ''post:/p:a:b:c''
       = Done (Inr \<lparr>Method = ''POST'', Path = ''/p'', Body = Some ''a:b:c''\<rparr>) []"
    unfolding u by simp
  with h c show ?thesis by blast
qed

text \<open>
  The claim as first stated says that the rest behind the second colon is the body as
  it stands.  The body is the interpolated rest: in \<^verbatim>\<open>GET:/p:a:{$range|min=5,max=5}\<close> it
  is \<^verbatim>\<open>a:5\<close>.
\<close>

theorem body_is_interpolated_remainder_counterexample:
  "ToHTTPRequest (fixedWorld \<lparr>unixNano = 0, rnd = 0, Local = UTC\<rparr>) ''GET:/p:a:{$range|min=5,max=5}''
     = Done (Inr \<lparr>Method = ''GET'', Path = ''/p'', Body = Some ''a:5''\<rparr>) []
   \<and> ''a:5'' \<noteq> ''a:{$range|min=5,max=5}''"
proof -
  have m: "toUpper ''GET'' = ''GET''" by code_simp
  have a: "allowedHTTPMethods ''GET'' \<noteq> None" by (simp add: allowedHTTPMethods_def)
  have p: "interpolatePlaceholders w ''/p'' = Done ''/p'' []" for w by code_simp
  have i: "interpolatePlaceholders w ''a:{$range|min=5,max=5}'' = Done ''a:5'' []" for w
    by (simp add: interp_defs)
  from ToHTTPRequest_three_parts[of "''GET''" "''/p''"
      "fixedWorld \<lparr>unixNano = 0, rnd = 0, Local = UTC\<rparr>" "''a:{$range|min=5,max=5}''"] m a i p
  show ?thesis by simp
qed

text \<open>
  C9.  For every descriptor \<open>M:P\<close> whose \<open>M\<close> is an allowed method in any casing,
  parsing must succeed with the method in upper case.  The method does come out in upper
  case whenever a request is returned (\<open>ToHTTPRequest_method_of_casing\<close>), but no
  request is returned when the interpolation of the path panics.  In \<open>rangeElements\<close>
  the size of the interval from 0 to the greatest \<open>int\<close> wraps around to a negative
  number, which \<open>rand.Intn\<close> refuses with a panic, and nothing between it and the caller
  of \<open>ToHTTPRequest\<close> recovers.
\<close>

theorem ToHTTPRequest_panics_on_path_range:
  "ToHTTPRequest w ''get:/x{$range|min=0,max=9223372036854775807}'' = Panic ''invalid argument to Intn''"
proof -
  have m: "toUpper ''get'' = ''GET''" by code_simp
  have a: "allowedHTTPMethods ''GET'' \<noteq> None" by (simp add: allowedHTTPMethods_def)
  have i: "interpolatePlaceholders w ''/x{$range|min=0,max=9223372036854775807}''
      = Panic ''invalid argument to Intn''"
    by (simp add: interp_defs)
  from ToHTTPRequest_two_parts[of "''get''" "''/x{$range|min=0,max=9223372036854775807}''" w] m a i
  show ?thesis by simp
qed

text \<open>
  C10.  Parsing must fail with an error exactly when the descriptor has no colon or its
  method is not an allowed one, and succeed in every other case.  The error comes back in
  exactly these cases (\<open>ToHTTPRequest_error_iff\<close>), but a descriptor with an allowed
  method does not always give a request: the panic of \<open>rand.Intn\<close> on the interval from
  0 to the greatest \<open>int\<close> ends the parse when the placeholder stands in the body, as it
  does in the path.
\<close>

theorem ToHTTPRequest_panics_on_body_range:
  "ToHTTPRequest w ''GET:/p:{$range|min=0,max=9223372036854775807}'' = Panic ''invalid argument to Intn''"
proof -
  have m: "toUpper ''GET'' = ''GET''" by code_simp
  have a: "allowedHTTPMethods ''GET'' \<noteq> None" by (simp add: allowedHTTPMethods_def)
  have p: "interpolatePlaceholders w ''/p'' = Done ''/p'' []" for w by code_simp
  have i: "interpolatePlaceholders w ''{$range|min=0,max=9223372036854775807}''
      = Panic ''invalid argument to Intn''" for w
    by (simp add: interp_defs)
  from ToHTTPRequest_three_parts[of "''GET''" "''/p''" w "''{$range|min=0,max=9223372036854775807}''"] m a i p
  show ?thesis by simp
qed

section \<open>The gRPC client: what a response reports\<close>

text \<open>
  C1.  After a connect that succeeds, an invocation that fails must show in the \<open>Err\<close>
  field of the response.  In the source both branches behind \<open>InvokeRPC\<close> build the
  response with \<open>Err: nil\<close>: whatever error \<open>err\<close> the invocation returns, on a fresh
  client whose dial succeeds the response carries no error.
\<close>

theorem SendRequest_drops_invocation_error:
  "SendRequest
     (e\<lparr>DialContext := \<lambda>h i. Inr cn,
        RequestParserAndFormatterFor := \<lambda>d m. Inr p,
        InvokeRPC := \<lambda>d c m hs p. Done (Some err) []\<rparr>)
     (NewClient h i t) serviceMethod message headers
   = (Done \<lparr>Duration = endTime e - startTime e, Err = None, Type = ''grpc''\<rparr> [],
      (NewClient h i t)\<lparr>conn := Some cn, connClose := CloseConn cn,
         descriptorSource := Some (ServerSource cn), grpcConnectOnceDone := True\<rparr>,
      [Dialed h, BuiltParser (Some (ServerSource cn)), Invoked (Some cn) serviceMethod])"
  by (simp add: SendRequest_def connect_def NewClient_def)

text \<open>
  C2.  After a first connect that fails, every later call must fail at once with the
  same connection error, without a dial and without an invocation.  In the source the
  error of the connect lives in a variable of the call that ran it.  The first call
  returns it.  A later call on the same client finds the \<open>sync.Once\<close> done and its own
  \<open>connErr\<close> still \<open>nil\<close>: it does not dial, but it goes on to build a parser and to
  invoke the method with the descriptor source and the connection both unset, and the
  response it returns carries the error of the parser or none at all.
\<close>

theorem SendRequest_forgets_connect_error:
  "SendRequest (e\<lparr>DialContext := \<lambda>h i. Inl err\<rparr>) (NewClient h i t) m1 msg1 hs1
     = (Done \<lparr>Duration = 0, Err = Some (''gRPC dial: '' @ err), Type = ''grpc''\<rparr> [],
        (NewClient h i t)\<lparr>grpcConnectOnceDone := True\<rparr>, [Dialed h])
   \<and> SendRequest e' ((NewClient h i t)\<lparr>grpcConnectOnceDone := True\<rparr>) m2 msg2 hs2
     = (case RequestParserAndFormatterFor e' None msg2 of
          Inl perr \<Rightarrow>
            (Done \<lparr>Duration = 0, Err = Some perr, Type = ''grpc''\<rparr> [],
             (NewClient h i t)\<lparr>grpcConnectOnceDone := True\<rparr>, [BuiltParser None])
        | Inr p \<Rightarrow>
            (case InvokeRPC e' None None m2 hs2 p of
               Panic q \<Rightarrow>
                 (Panic q, (NewClient h i t)\<lparr>grpcConnectOnceDone := True\<rparr>,
                  [BuiltParser None, Invoked None m2])
             | Done r l \<Rightarrow>
                 (Done \<lparr>Duration = endTime e' - startTime e', Err = None, Type = ''grpc''\<rparr> [],
                  (NewClient h i t)\<lparr>grpcConnectOnceDone := True\<rparr>,
                  [BuiltParser None, Invoked None m2])))"
  by (simp add: SendRequest_def connect_def NewClient_def split: sum.splits res.splits)

end
